theory Spec2Isabelle
  imports Main "HOL-Library.Word" "HOL-Library.List_Lexorder" "HOL-Library.AList"
    "HOL-Library.Multiset"
begin

unbundle bit_operations_syntax

section \<open>Data model\<close>

text \<open>
  The entity lookup of the datahub (package \<open>entity\<close>, type \<open>Lookup\<close>) reads an ordered
  key-value store through one read transaction.  Keys and values are byte strings; an
  entity's internal id is a \<open>uint64\<close>, a dataset's internal id a \<open>uint32\<close>.
\<close>

type_synonym byte = "8 word"
type_synonym bytes = "byte list"
type_synonym InternalID = "64 word"
type_synonym InternalDatasetID = "32 word"
type_synonym CURIE = string
type_synonym item = "bytes \<times> bytes"

text \<open>
  Errors are values.  \<open>Panic\<close> stands for a Go run-time panic (a slice bound or an index
  out of range); \<open>Corrupt\<close> for the error \<open>json.Unmarshal\<close> returns.
\<close>

datatype error = InvalidIdentifier | NotFound | Corrupt | Panic

text \<open>
  The database as one transaction sees it: the live key-value pairs in the order a forward
  iterator visits them (ascending keys), and the identifier registry.

  Modelled from the spec: the registry of internal entity ids (\<open>InternalIDForCURIE\<close> is not
  among the sources); the spec keeps it in the store, read through the transaction.
\<close>

record DB =
  kv :: "item list"
  curie_ids :: "CURIE \<rightharpoonup> InternalID"

record Txn =
  view :: DB
  writable :: bool

text \<open>
  \<open>store.BadgerStore\<close> is an interface whose implementation is not among the sources.  Its
  methods are taken as they are called: none of the three dataset lookups receives the
  transaction.
\<close>

record BadgerStore =
  GetDB :: DB
  LookupDatasetID :: "string \<rightharpoonup> InternalDatasetID"
  LookupDatasetName :: "InternalDatasetID \<rightharpoonup> string"
  IsDatasetDeleted :: "InternalDatasetID \<Rightarrow> bool"

text \<open>
  \<open>Lookup\<close> holds the store and the namespace manager.  The remaining fields are what the
  methods call and the sources do not contain: \<open>asCURIE\<close> (the namespace manager's
  compaction), the key prefixes \<open>store.SeekEntity\<close> and \<open>store.SeekEntityChanges\<close>,
  \<open>json.Unmarshal\<close> into a document (\<open>None\<close> when it returns an error), and the order in
  which Go's \<open>range\<close> visits a map, which the language leaves open.
\<close>

record 'doc Lookup =
  badger :: BadgerStore
  asCURIE :: "string \<Rightarrow> error + CURIE"
  SeekEntity :: "InternalID \<Rightarrow> bytes"
  SeekEntityChanges :: "InternalDatasetID \<Rightarrow> InternalID \<Rightarrow> bytes"
  Unmarshal :: "bytes \<Rightarrow> 'doc option"
  range_order :: "(InternalDatasetID \<times> bytes) list \<Rightarrow> (InternalDatasetID \<times> bytes) list"

text \<open>
  A value of the result map: the string stored for a dataset without a name, or the map
  with the keys \<open>latest\<close> and \<open>changes\<close>.
\<close>

datatype 'doc detail = Placeholder string | Entry (latest: 'doc) (changes: "'doc list")

text \<open>What a call does to the storage engine, in order.\<close>

datatype event =
    TxnOpened bool
  | TxnDiscarded
  | TxnCommitted
  | EntrySet bytes bytes
  | IterOpened bytes
  | IterClosed bytes

section \<open>Library functions the code calls\<close>

text \<open>\<open>key[n:]\<close> panics when \<open>n\<close> exceeds the length.\<close>

definition slice_from :: "nat \<Rightarrow> bytes \<Rightarrow> error + bytes" where
  "slice_from n s = (if n \<le> length s then Inr (drop n s) else Inl Panic)"

text \<open>\<open>binary.BigEndian.Uint32\<close> reads four bytes and panics on a shorter slice.\<close>

fun Uint32 :: "bytes \<Rightarrow> error + 32 word" where
  "Uint32 (b0 # b1 # b2 # b3 # _) =
     Inr (ucast b3 OR push_bit 8 (ucast b2) OR push_bit 16 (ucast b1) OR push_bit 24 (ucast b0))"
| "Uint32 _ = Inl Panic"

definition HasPrefix :: "bytes \<Rightarrow> bytes \<Rightarrow> bool" where
  "HasPrefix s p = (take (length p) s = p)"

text \<open>\<open>fmt.Sprintf("%v", n)\<close> for an unsigned integer: its decimal digits.\<close>

fun decimal :: "nat \<Rightarrow> string" where
  "decimal n =
     (if n < 10 then [char_of (48 + n)] else decimal (n div 10) @ [char_of (48 + n mod 10)])"

definition Sprintf_v :: "InternalDatasetID \<Rightarrow> string" where
  "Sprintf_v d = decimal (unat d)"

subsection \<open>Transactions and iterators\<close>

definition NewTransaction :: "DB \<Rightarrow> bool \<Rightarrow> Txn" where
  "NewTransaction db upd = \<lparr>view = db, writable = upd\<rparr>"

text \<open>
  An iterator is the list of items from its position on.  \<open>Seek\<close> moves to the first key
  not below the given one; \<open>Rewind\<close> on an iterator with a prefix option seeks that prefix;
  \<open>ValidForPrefix\<close> holds while there is an item and its key has the prefix; \<open>Next\<close> drops
  the item.
\<close>

definition NewIterator :: "Txn \<Rightarrow> item list" where
  "NewIterator rtxn = kv (view rtxn)"

definition Seek :: "bytes \<Rightarrow> item list \<Rightarrow> item list" where
  "Seek key its = dropWhile (\<lambda>it. fst it < key) its"

definition Rewind :: "bytes \<Rightarrow> item list \<Rightarrow> item list" where
  "Rewind opt_prefix its = Seek opt_prefix its"

section \<open>Identifier registry\<close>

text \<open>
  Modelled from the spec: \<open>InternalIDForCURIE\<close> is not among the sources.  The spec: it
  resolves a curie against the transaction and fails with \<open>NotFound\<close> when the curie has
  never been assigned an internal id.
\<close>

definition InternalIDForCURIE :: "Txn \<Rightarrow> CURIE \<Rightarrow> error + InternalID" where
  "InternalIDForCURIE rtxn curie =
     (case curie_ids (view rtxn) curie of None \<Rightarrow> Inl NotFound | Some i \<Rightarrow> Inr i)"

text \<open>
  Modelled from the spec: \<open>LookupDatasetIDs\<close> is not among the sources.  The spec: names
  are resolved to internal dataset ids, and names not found are silently dropped.
\<close>

fun LookupDatasetIDs :: "BadgerStore \<Rightarrow> string list \<Rightarrow> InternalDatasetID list" where
  "LookupDatasetIDs b [] = []"
| "LookupDatasetIDs b (dsn # rest) =
     (case LookupDatasetID b dsn of
        None \<Rightarrow> LookupDatasetIDs b rest
      | Some dsid \<Rightarrow> dsid # LookupDatasetIDs b rest)"

section \<open>The lookup engine\<close>

subsection \<open>\<open>loadChanges\<close>\<close>

text \<open>
  The loop of \<open>loadChanges\<close>: while the iterator is valid for the prefix, decode the value
  and append it; return at the first value that does not decode.
\<close>

fun changes_loop ::
  "'doc Lookup \<Rightarrow> bytes \<Rightarrow> item list \<Rightarrow> 'doc list \<Rightarrow> error + 'doc list" where
  "changes_loop l seekPrefix [] result = Inr result"
| "changes_loop l seekPrefix (it # rest) result =
     (if \<not> HasPrefix (fst it) seekPrefix then Inr result
      else case Unmarshal l (snd it) of
             None \<Rightarrow> Inl Corrupt
           | Some entity \<Rightarrow> changes_loop l seekPrefix rest (result @ [entity]))"

definition loadChanges ::
  "'doc Lookup \<Rightarrow> Txn \<Rightarrow> InternalID \<Rightarrow> InternalDatasetID \<Rightarrow> (error + 'doc list) \<times> event list"
  where
  "loadChanges l rtxn internalEntityID internalDatasetID =
     (let seekPrefix = SeekEntityChanges l internalDatasetID internalEntityID;
          entityChangesIterator = Rewind seekPrefix (NewIterator rtxn)
      in (changes_loop l seekPrefix entityChangesIterator [],
          [IterOpened seekPrefix, IterClosed seekPrefix]))"

subsection \<open>\<open>loadDetails\<close>\<close>

text \<open>The scope test of the scan: the inner loop with its \<open>break\<close>.\<close>

fun in_scope :: "InternalDatasetID list \<Rightarrow> InternalDatasetID \<Rightarrow> bool" where
  "in_scope [] currentDatasetID = False"
| "in_scope (i # rest) currentDatasetID =
     (if i = currentDatasetID then True else in_scope rest currentDatasetID)"

text \<open>The dataset id of a locator key: \<open>binary.BigEndian.Uint32(key[10:])\<close>.\<close>

definition key_dataset :: "bytes \<Rightarrow> error + InternalDatasetID" where
  "key_dataset key = (case slice_from 10 key of Inl err \<Rightarrow> Inl err | Inr t \<Rightarrow> Uint32 t)"

text \<open>
  The scan of the locator index.  The state is \<open>prevValueBytes\<close>, \<open>previousDatasetID\<close> and
  the map \<open>partials\<close>, kept as an association list.
\<close>

type_synonym scan_state = "bytes \<times> InternalDatasetID \<times> (InternalDatasetID \<times> bytes) list"

fun locator_loop ::
  "BadgerStore \<Rightarrow> InternalDatasetID list \<Rightarrow> bytes \<Rightarrow> item list \<Rightarrow> scan_state
     \<Rightarrow> error + scan_state" where
  "locator_loop b scope pfx [] st = Inr st"
| "locator_loop b scope pfx (it # rest) (prevValueBytes, previousDatasetID, partials) =
     (if \<not> HasPrefix (fst it) pfx then Inr (prevValueBytes, previousDatasetID, partials)
      else case key_dataset (fst it) of
        Inl err \<Rightarrow> Inl err
      | Inr currentDatasetID \<Rightarrow>
          (let datasetDeleted = IsDatasetDeleted b currentDatasetID;
               datasetIncluded = (if length scope = 0 then True
                                  else in_scope scope currentDatasetID)
           in if datasetDeleted \<or> \<not> datasetIncluded
              then locator_loop b scope pfx rest (prevValueBytes, previousDatasetID, partials)
              else locator_loop b scope pfx rest
                     (snd it, currentDatasetID,
                      if previousDatasetID \<noteq> 0 \<and> currentDatasetID \<noteq> previousDatasetID
                      then AList.update previousDatasetID prevValueBytes partials
                      else partials)))"

text \<open>
  The loop over \<open>partials\<close> that builds the result.  It returns at the first document that
  does not decode; the events are those of the \<open>loadChanges\<close> calls made.
\<close>

fun collect ::
  "'doc Lookup \<Rightarrow> Txn \<Rightarrow> InternalID \<Rightarrow> (InternalDatasetID \<times> bytes) list
     \<Rightarrow> (string \<rightharpoonup> 'doc detail) \<Rightarrow> (error + (string \<rightharpoonup> 'doc detail)) \<times> event list" where
  "collect l rtxn internalEntityID [] result = (Inr result, [])"
| "collect l rtxn internalEntityID ((internalDatasetID, entityBytes) # rest) result =
     (case LookupDatasetName (badger l) internalDatasetID of
        None \<Rightarrow>
          collect l rtxn internalEntityID rest
            (result(Sprintf_v internalDatasetID \<mapsto>
               Placeholder ''UNEXPECTED: dataset name not found''))
      | Some n \<Rightarrow>
          (case Unmarshal l entityBytes of
             None \<Rightarrow> (Inl Corrupt, [])
           | Some entity \<Rightarrow>
               (case loadChanges l rtxn internalEntityID internalDatasetID of
                  (Inl err, evs) \<Rightarrow> (Inl err, evs)
                | (Inr chs, evs) \<Rightarrow>
                    (case collect l rtxn internalEntityID rest
                            (result(n \<mapsto> Entry entity chs)) of
                       (r, evs') \<Rightarrow> (r, evs @ evs')))))"

text \<open>The scan with the final commit of the pending value: the content of \<open>partials\<close>.\<close>

definition scan_partials ::
  "'doc Lookup \<Rightarrow> Txn \<Rightarrow> InternalID \<Rightarrow> InternalDatasetID list
     \<Rightarrow> error + (InternalDatasetID \<times> bytes) list" where
  "scan_partials l rtxn internalEntityID scope =
     (let entityLocatorPrefixBuffer = SeekEntity l internalEntityID;
          entityLocatorIterator = Seek entityLocatorPrefixBuffer (NewIterator rtxn)
      in case locator_loop (badger l) scope entityLocatorPrefixBuffer entityLocatorIterator
                ([], 0, []) of
           Inl err \<Rightarrow> Inl err
         | Inr (prevValueBytes, previousDatasetID, partials) \<Rightarrow>
             Inr (if previousDatasetID \<noteq> 0
                  then AList.update previousDatasetID prevValueBytes partials
                  else partials))"

definition loadDetails ::
  "'doc Lookup \<Rightarrow> Txn \<Rightarrow> InternalID \<Rightarrow> InternalDatasetID list
     \<Rightarrow> (error + (string \<rightharpoonup> 'doc detail)) \<times> event list" where
  "loadDetails l rtxn internalEntityID scope =
     (let entityLocatorPrefixBuffer = SeekEntity l internalEntityID
      in case scan_partials l rtxn internalEntityID scope of
           Inl err \<Rightarrow>
             (Inl err,
              [IterOpened entityLocatorPrefixBuffer, IterClosed entityLocatorPrefixBuffer])
         | Inr partials \<Rightarrow>
             (case collect l rtxn internalEntityID (range_order l partials) Map.empty of
                (r, evs) \<Rightarrow>
                  (r, [IterOpened entityLocatorPrefixBuffer] @ evs
                        @ [IterClosed entityLocatorPrefixBuffer])))"

subsection \<open>\<open>Details\<close>\<close>

definition Details ::
  "'doc Lookup \<Rightarrow> string \<Rightarrow> string list
     \<Rightarrow> (error + (string \<rightharpoonup> 'doc detail)) \<times> event list" where
  "Details l ident datasetNames =
     (case asCURIE l ident of
        Inl err \<Rightarrow> (Inl err, [])
      | Inr curie \<Rightarrow>
          (let b = GetDB (badger l);
               rtxn = NewTransaction b False
           in case InternalIDForCURIE rtxn curie of
                Inl err \<Rightarrow> (Inl err, [TxnOpened False, TxnDiscarded])
              | Inr internalID \<Rightarrow>
                  (let scope = LookupDatasetIDs (badger l) datasetNames
                   in case loadDetails l rtxn internalID scope of
                        (details, evs) \<Rightarrow>
                          (details, [TxnOpened False] @ evs @ [TxnDiscarded]))))"

text \<open>
  The part of \<open>Details\<close> that runs once the transaction is open: it takes the transaction
  and the store as they are passed on, so that the store can be one that has changed since the
  transaction was opened on it.
\<close>

definition Details_opened ::
  "'doc Lookup \<Rightarrow> Txn \<Rightarrow> CURIE \<Rightarrow> string list
     \<Rightarrow> (error + (string \<rightharpoonup> 'doc detail)) \<times> event list" where
  "Details_opened l rtxn curie datasetNames =
     (case InternalIDForCURIE rtxn curie of
        Inl err \<Rightarrow> (Inl err, [TxnOpened False, TxnDiscarded])
      | Inr internalID \<Rightarrow>
          (let scope = LookupDatasetIDs (badger l) datasetNames
           in case loadDetails l rtxn internalID scope of
                (details, evs) \<Rightarrow>
                  (details, [TxnOpened False] @ evs @ [TxnDiscarded])))"

section \<open>The storage engine's effects\<close>

text \<open>
  What the events of a call do to the committed database, as the engine documents it: a
  transaction buffers its writes, \<open>Commit\<close> applies them, \<open>Discard\<close> drops them, and
  iterators write nothing.  The state is the committed database and the pending writes.
\<close>

fun write_entry :: "item \<Rightarrow> item list \<Rightarrow> item list" where
  "write_entry (k, v) its = insort_key fst (k, v) (filter (\<lambda>it. fst it \<noteq> k) its)"

fun apply_event :: "event \<Rightarrow> DB \<times> item list \<Rightarrow> DB \<times> item list" where
  "apply_event (TxnOpened upd) (db, pending) = (db, [])"
| "apply_event (EntrySet k v) (db, pending) = (db, pending @ [(k, v)])"
| "apply_event TxnCommitted (db, pending) = (db\<lparr>kv := fold write_entry pending (kv db)\<rparr>, [])"
| "apply_event TxnDiscarded (db, pending) = (db, [])"
| "apply_event (IterOpened p) (db, pending) = (db, pending)"
| "apply_event (IterClosed p) (db, pending) = (db, pending)"

definition store_after :: "DB \<Rightarrow> event list \<Rightarrow> DB" where
  "store_after db evs = fst (fold apply_event evs (db, []))"

definition is_iterator_event :: "event \<Rightarrow> bool" where
  "is_iterator_event ev = (case ev of IterOpened _ \<Rightarrow> True | IterClosed _ \<Rightarrow> True | _ \<Rightarrow> False)"

section \<open>Notions of the statements\<close>

text \<open>
  The items an iterator visits for a prefix: from the first key not below the prefix, as
  long as the key has the prefix.
\<close>

definition under_prefix :: "bytes \<Rightarrow> item list \<Rightarrow> item list" where
  "under_prefix p its = takeWhile (\<lambda>it. HasPrefix (fst it) p) (Seek p its)"

text \<open>
  The two index families as one database holds them: the locator entries of an entity and
  the change log of an entity within a dataset, both in key order.
\<close>

definition locator_entries :: "'doc Lookup \<Rightarrow> DB \<Rightarrow> InternalID \<Rightarrow> item list" where
  "locator_entries l db e = under_prefix (SeekEntity l e) (kv db)"

definition change_entries :: "'doc Lookup \<Rightarrow> DB \<Rightarrow> InternalDatasetID \<Rightarrow> InternalID \<Rightarrow> item list" where
  "change_entries l db d e = under_prefix (SeekEntityChanges l d e) (kv db)"

text \<open>
  The dataset a locator entry belongs to, the entries of one dataset, and the value of the
  last of them: the entry of the highest ordinal, since the ordinal ends the key.
\<close>

definition dataset_of :: "item \<Rightarrow> InternalDatasetID option" where
  "dataset_of it = (case key_dataset (fst it) of Inl _ \<Rightarrow> None | Inr d \<Rightarrow> Some d)"

definition locator_datasets :: "'doc Lookup \<Rightarrow> DB \<Rightarrow> InternalID \<Rightarrow> InternalDatasetID list" where
  "locator_datasets l db e = List.map_filter dataset_of (locator_entries l db e)"

definition dataset_entries :: "InternalDatasetID \<Rightarrow> item list \<Rightarrow> item list" where
  "dataset_entries d xs = filter (\<lambda>it. key_dataset (fst it) = Inr d) xs"

definition last_value :: "item list \<Rightarrow> bytes option" where
  "last_value xs = (case xs of [] \<Rightarrow> None | _ \<Rightarrow> Some (snd (last xs)))"

definition locator_latest :: "'doc Lookup \<Rightarrow> DB \<Rightarrow> InternalID \<Rightarrow> InternalDatasetID \<Rightarrow> bytes option" where
  "locator_latest l db e d = last_value (dataset_entries d (locator_entries l db e))"

definition wellformed_keys :: "item list \<Rightarrow> bool" where
  "wellformed_keys xs = (\<forall>it\<in>set xs. \<exists>d. key_dataset (fst it) = Inr d)"

text \<open>
  A dataset passes the filter of the scan when it is not deleted and the scope is empty or
  holds it; an entry is skipped when its key can be read and its dataset does not pass.
  The datasets that reach the map \<open>partials\<close> are those that pass and are not \<open>0\<close>.
\<close>

definition retained :: "BadgerStore \<Rightarrow> InternalDatasetID list \<Rightarrow> InternalDatasetID \<Rightarrow> bool" where
  "retained b scope d = (\<not> IsDatasetDeleted b d \<and> (scope = [] \<or> d \<in> set scope))"

definition skipped :: "BadgerStore \<Rightarrow> InternalDatasetID list \<Rightarrow> item \<Rightarrow> bool" where
  "skipped b scope it =
     (case key_dataset (fst it) of Inl _ \<Rightarrow> False | Inr d \<Rightarrow> \<not> retained b scope d)"

definition accumulated ::
  "'doc Lookup \<Rightarrow> DB \<Rightarrow> InternalID \<Rightarrow> InternalDatasetID list \<Rightarrow> InternalDatasetID list" where
  "accumulated l db e scope =
     filter (\<lambda>d. retained (badger l) scope d \<and> d \<noteq> 0) (locator_datasets l db e)"

text \<open>
  The state of the scan read as a map: \<open>partials\<close> with the pending value written, as the
  commit after the loop does; and what one entry does to that map.
\<close>

definition pending_map :: "scan_state \<Rightarrow> (InternalDatasetID \<rightharpoonup> bytes)" where
  "pending_map st = (case st of (pv, pd, partials) \<Rightarrow>
      if pd \<noteq> 0 then (map_of partials)(pd \<mapsto> pv) else map_of partials)"

definition commit_item ::
  "BadgerStore \<Rightarrow> InternalDatasetID list \<Rightarrow> item \<Rightarrow> (InternalDatasetID \<rightharpoonup> bytes) \<Rightarrow> (InternalDatasetID \<rightharpoonup> bytes)" where
  "commit_item b scope it m = (case key_dataset (fst it) of
      Inl _ \<Rightarrow> m
    | Inr d \<Rightarrow> if retained b scope d \<and> d \<noteq> 0 then m(d \<mapsto> snd it) else m)"

text \<open>
  The decoded change log of a dataset, the key of a dataset in the result, and the value the
  second loop stores for an entry of \<open>partials\<close> (\<open>None\<close> when a document does not decode).
\<close>

definition decoded_changes ::
  "'doc Lookup \<Rightarrow> DB \<Rightarrow> InternalDatasetID \<Rightarrow> InternalID \<Rightarrow> 'doc list option" where
  "decoded_changes l db d e = those (map (\<lambda>it. Unmarshal l (snd it)) (change_entries l db d e))"

definition result_key :: "'doc Lookup \<Rightarrow> InternalDatasetID \<Rightarrow> string" where
  "result_key l d = (case LookupDatasetName (badger l) d of None \<Rightarrow> Sprintf_v d | Some n \<Rightarrow> n)"

definition dataset_detail ::
  "'doc Lookup \<Rightarrow> DB \<Rightarrow> InternalID \<Rightarrow> InternalDatasetID \<times> bytes \<Rightarrow> 'doc detail option" where
  "dataset_detail l db e p =
     (case LookupDatasetName (badger l) (fst p) of
        None \<Rightarrow> Some (Placeholder ''UNEXPECTED: dataset name not found'')
      | Some n \<Rightarrow>
          (case Unmarshal l (snd p) of
             None \<Rightarrow> None
           | Some entity \<Rightarrow>
               (case decoded_changes l db (fst p) e of
                  None \<Rightarrow> None
                | Some chs \<Rightarrow> Some (Entry entity chs))))"

definition put_detail ::
  "'doc Lookup \<Rightarrow> DB \<Rightarrow> InternalID \<Rightarrow> InternalDatasetID \<times> bytes
     \<Rightarrow> (string \<rightharpoonup> 'doc detail) \<Rightarrow> (string \<rightharpoonup> 'doc detail)" where
  "put_detail l db e p r = r(result_key l (fst p) \<mapsto> the (dataset_detail l db e p))"

text \<open>
  Go visits the keys of a map in an order of its choosing, each key once: \<open>range_order\<close>
  permutes the entries.
\<close>

definition range_permutes :: "'doc Lookup \<Rightarrow> bool" where
  "range_permutes l = (\<forall>xs. mset (range_order l xs) = mset xs)"

text \<open>
  Two values of \<open>Lookup\<close> that differ at most in the store: the same key prefixes, decoder and
  iteration order.  Two stores with the same dataset tables; their databases may differ.
\<close>

definition same_helpers :: "'doc Lookup \<Rightarrow> 'doc Lookup \<Rightarrow> bool" where
  "same_helpers l l' =
     (SeekEntity l' = SeekEntity l \<and> SeekEntityChanges l' = SeekEntityChanges l
      \<and> Unmarshal l' = Unmarshal l \<and> range_order l' = range_order l)"

definition same_dataset_tables :: "BadgerStore \<Rightarrow> BadgerStore \<Rightarrow> bool" where
  "same_dataset_tables b b' =
     (LookupDatasetID b' = LookupDatasetID b \<and> LookupDatasetName b' = LookupDatasetName b
      \<and> IsDatasetDeleted b' = IsDatasetDeleted b)"

section \<open>A store for the examples\<close>

text \<open>
  Keys as the store package lays them out, as far as the lookup shows it: a two-byte index
  tag, then big-endian ids; the dataset id of a locator key starts at byte 10.
\<close>

definition PutUint16 :: "16 word \<Rightarrow> bytes" where
  "PutUint16 v = [ucast (drop_bit 8 v), ucast v]"

definition PutUint32 :: "32 word \<Rightarrow> bytes" where
  "PutUint32 v = [ucast (drop_bit 24 v), ucast (drop_bit 16 v), ucast (drop_bit 8 v), ucast v]"

definition PutUint64 :: "64 word \<Rightarrow> bytes" where
  "PutUint64 v = [ucast (drop_bit 56 v), ucast (drop_bit 48 v), ucast (drop_bit 40 v), ucast (drop_bit 32 v),
     ucast (drop_bit 24 v), ucast (drop_bit 16 v), ucast (drop_bit 8 v), ucast v]"

definition ex_SeekEntity :: "InternalID \<Rightarrow> bytes" where
  "ex_SeekEntity e = PutUint16 1 @ PutUint64 e"

definition ex_SeekEntityChanges :: "InternalDatasetID \<Rightarrow> InternalID \<Rightarrow> bytes" where
  "ex_SeekEntityChanges d e = PutUint16 2 @ PutUint32 d @ PutUint64 e"

definition locator_key :: "InternalID \<Rightarrow> InternalDatasetID \<Rightarrow> 64 word \<Rightarrow> bytes" where
  "locator_key e d n = ex_SeekEntity e @ PutUint32 d @ PutUint64 n"

definition change_key :: "InternalDatasetID \<Rightarrow> InternalID \<Rightarrow> 64 word \<Rightarrow> bytes" where
  "change_key d e n = ex_SeekEntityChanges d e @ PutUint64 n"

text \<open>A stand-in for the JSON decoder: a document is a byte string that starts with a brace.\<close>

definition ex_Unmarshal :: "bytes \<Rightarrow> bytes option" where
  "ex_Unmarshal b = (case b of [] \<Rightarrow> None | x # _ \<Rightarrow> if x = 123 then Some b else None)"

definition ex_asCURIE :: "string \<Rightarrow> error + CURIE" where
  "ex_asCURIE s = (if s = [] then Inl InvalidIdentifier else Inr s)"

text \<open>
  Entity \<open>ex:3\<close> (internal id 8) has two versions in \<open>people\<close> (dataset 1), one in
  \<open>contacts\<close> (2), one in the deleted dataset \<open>archive\<close> (3), one in dataset 0 and one in
  dataset 7, which has no name.  Entity \<open>ex:4\<close> (9) is in the deleted dataset only.  The
  change log of \<open>ex:5\<close> (10) holds a value that does not decode.
\<close>

definition ex_db :: DB where
  "ex_db = \<lparr>kv = [(locator_key 8 0 1, [123, 0]),
                  (locator_key 8 1 1, [123, 1]), (locator_key 8 1 2, [123, 2]),
                  (locator_key 8 2 1, [123, 3]),
                  (locator_key 8 3 1, [123, 4]),
                  (locator_key 8 7 1, [123, 5]),
                  (locator_key 9 3 1, [123, 6]),
                  (locator_key 10 1 1, [123, 7]),
                  (change_key 0 8 1, [123, 0]),
                  (change_key 1 8 1, [123, 1]), (change_key 1 8 2, [123, 2]),
                  (change_key 1 10 1, [0]),
                  (change_key 2 8 1, [123, 3]),
                  (change_key 3 8 1, [123, 4]),
                  (change_key 3 9 1, [123, 6]),
                  (change_key 7 8 1, [123, 5])],
            curie_ids = [''ex:3'' \<mapsto> 8, ''ex:4'' \<mapsto> 9, ''ex:5'' \<mapsto> 10]\<rparr>"

definition ex_store :: BadgerStore where
  "ex_store = \<lparr>GetDB = ex_db,
     LookupDatasetID = [''zero'' \<mapsto> 0, ''people'' \<mapsto> 1, ''contacts'' \<mapsto> 2, ''archive'' \<mapsto> 3],
     LookupDatasetName = [0 \<mapsto> ''zero'', 1 \<mapsto> ''people'', 2 \<mapsto> ''contacts'', 3 \<mapsto> ''archive''],
     IsDatasetDeleted = (\<lambda>d. d = 3)\<rparr>"

definition ex_lookup :: "bytes Lookup" where
  "ex_lookup = \<lparr>badger = ex_store, asCURIE = ex_asCURIE, SeekEntity = ex_SeekEntity,
     SeekEntityChanges = ex_SeekEntityChanges, Unmarshal = ex_Unmarshal, range_order = rev\<rparr>"

text \<open>
  The store at two later times: after a transaction has committed a third version of \<open>ex:3\<close>
  in \<open>people\<close>, and after \<open>people\<close> has been marked deleted.
\<close>

definition ex_db_written :: DB where
  "ex_db_written =
     ex_db\<lparr>kv := fold write_entry
                    [(locator_key 8 1 3, [123, 9]), (change_key 1 8 3, [123, 9])] (kv ex_db)\<rparr>"

definition ex_lookup_written :: "bytes Lookup" where
  "ex_lookup_written = ex_lookup\<lparr>badger := ex_store\<lparr>GetDB := ex_db_written\<rparr>\<rparr>"

definition ex_lookup_deleted :: "bytes Lookup" where
  "ex_lookup_deleted =
     ex_lookup\<lparr>badger := ex_store\<lparr>IsDatasetDeleted := (\<lambda>d. d = 3 \<or> d = 1)\<rparr>\<rparr>"

text \<open>
  A store in which a name and a decimal id meet: entity \<open>ex:3\<close> is in dataset 5, whose name
  is \<open>7\<close>, and in dataset 7, which has no name.  The two values of \<open>Lookup\<close> differ in the
  order in which the map is visited.
\<close>

definition ex_db_clash :: DB where
  "ex_db_clash = \<lparr>kv = [(locator_key 8 5 1, [123, 1]),
                        (locator_key 8 7 1, [123, 5]),
                        (change_key 5 8 1, [123, 1]),
                        (change_key 7 8 1, [123, 5])],
                  curie_ids = [''ex:3'' \<mapsto> 8]\<rparr>"

definition ex_store_clash :: BadgerStore where
  "ex_store_clash = \<lparr>GetDB = ex_db_clash,
     LookupDatasetID = [''7'' \<mapsto> 5],
     LookupDatasetName = [5 \<mapsto> ''7''],
     IsDatasetDeleted = (\<lambda>d. False)\<rparr>"

definition ex_lookup_clash :: "bytes Lookup" where
  "ex_lookup_clash = \<lparr>badger = ex_store_clash, asCURIE = ex_asCURIE, SeekEntity = ex_SeekEntity,
     SeekEntityChanges = ex_SeekEntityChanges, Unmarshal = ex_Unmarshal, range_order = rev\<rparr>"

definition ex_lookup_clash_fwd :: "bytes Lookup" where
  "ex_lookup_clash_fwd = ex_lookup_clash\<lparr>range_order := (\<lambda>ps. ps)\<rparr>"

section \<open>Lemmas\<close>

lemma in_scope_set: "in_scope scope d = (d \<in> set scope)"
  by (induction scope) auto

lemma locator_loop_takeWhile:
  "locator_loop b scope p its st = locator_loop b scope p (takeWhile (\<lambda>it. HasPrefix (fst it) p) its) st"
proof (induction its arbitrary: st)
  case Nil
  show ?case by simp
next
  case (Cons it rest)
  obtain pv pd ps where st: "st = (pv, pd, ps)" by (cases st) auto
  show ?case
  proof (cases "HasPrefix (fst it) p")
    case False
    then show ?thesis by (simp add: st)
  next
    case True
    then show ?thesis
      by (simp add: st Let_def Cons.IH[symmetric] split: sum.splits)
  qed
qed

lemma locator_loop_fold:
  assumes "\<forall>it\<in>set xs. HasPrefix (fst it) p \<and> (\<exists>d. key_dataset (fst it) = Inr d)"
  shows "\<exists>st'. locator_loop b scope p xs st = Inr st'
            \<and> pending_map st' = fold (commit_item b scope) xs (pending_map st)
            \<and> (distinct (map fst (snd (snd st))) \<longrightarrow> distinct (map fst (snd (snd st'))))"
  using assms
proof (induction xs arbitrary: st)
  case Nil
  show ?case by simp
next
  case (Cons it rest)
  obtain pv pd ps where st: "st = (pv, pd, ps)" by (cases st) auto
  from Cons.prems obtain d where d: "key_dataset (fst it) = Inr d" and hp: "HasPrefix (fst it) p"
    by auto
  from Cons.prems have rest: "\<forall>it\<in>set rest. HasPrefix (fst it) p \<and> (\<exists>d. key_dataset (fst it) = Inr d)"
    by simp
  show ?case
  proof (cases "retained b scope d")
    case False
    then have step: "locator_loop b scope p (it # rest) st = locator_loop b scope p rest st"
      by (auto simp: st d hp retained_def in_scope_set)
    have cm: "commit_item b scope it (pending_map st) = pending_map st"
      using False by (simp add: commit_item_def d)
    show ?thesis using Cons.IH[OF rest, of st] by (simp add: step cm)
  next
    case True
    let ?st1 = "(snd it, d, if pd \<noteq> 0 \<and> d \<noteq> pd then AList.update pd pv ps else ps)"
    have step: "locator_loop b scope p (it # rest) st = locator_loop b scope p rest ?st1"
      using True by (auto simp: st d hp retained_def in_scope_set)
    have cm: "pending_map ?st1 = commit_item b scope it (pending_map st)"
      using True by (auto simp: commit_item_def d pending_map_def st update_conv' fun_upd_twist)
    have dist: "distinct (map fst ps) \<longrightarrow> distinct (map fst (snd (snd ?st1)))"
      by (simp add: distinct_update)
    from Cons.IH[OF rest, of ?st1] obtain st' where
      1: "locator_loop b scope p rest ?st1 = Inr st'" and
      2: "pending_map st' = fold (commit_item b scope) rest (pending_map ?st1)" and
      3: "distinct (map fst (snd (snd ?st1))) \<longrightarrow> distinct (map fst (snd (snd st')))"
      by blast
    have "locator_loop b scope p (it # rest) st = Inr st'" using step 1 by simp
    moreover have "pending_map st' = fold (commit_item b scope) (it # rest) (pending_map st)"
      using 2 cm by simp
    moreover have "distinct (map fst (snd (snd st))) \<longrightarrow> distinct (map fst (snd (snd st')))"
      using 3 dist by (simp add: st)
    ultimately show ?thesis by blast
  qed
qed

lemma fold_commit_item:
  "fold (commit_item b scope) xs m d =
     (if retained b scope d \<and> d \<noteq> 0
      then (case last_value (dataset_entries d xs) of None \<Rightarrow> m d | Some v \<Rightarrow> Some v)
      else m d)"
proof (induction xs arbitrary: m)
  case Nil
  show ?case by (simp add: dataset_entries_def last_value_def)
next
  case (Cons it rest)
  show ?case
  proof (cases "key_dataset (fst it)")
    case (Inl err)
    then have step: "\<And>m. commit_item b scope it m = m"
      by (simp add: commit_item_def)
    show ?thesis using Inl
      by (simp add: Cons.IH step dataset_entries_def)
  next
    case (Inr d')
    then have step: "\<And>m. commit_item b scope it m =
        (if retained b scope d' \<and> d' \<noteq> 0 then m(d' \<mapsto> snd it) else m)"
      by (simp add: commit_item_def)
    show ?thesis
    proof (cases "d' = d")
      case False
      then show ?thesis using Inr
        by (auto simp: Cons.IH step dataset_entries_def split: option.splits)
    next
      case True
      then show ?thesis using Inr
        by (auto simp: Cons.IH step dataset_entries_def last_value_def split: list.splits)
    qed
  qed
qed

lemma under_prefix_HasPrefix: "it \<in> set (under_prefix p its) \<Longrightarrow> HasPrefix (fst it) p"
  unfolding under_prefix_def by (auto dest: set_takeWhileD)

lemma scan_partials_ok:
  assumes wf: "wellformed_keys (locator_entries l (view rtxn) e)"
  shows "\<exists>ps. scan_partials l rtxn e scope = Inr ps \<and> distinct (map fst ps)
           \<and> map_of ps = (\<lambda>d. if retained (badger l) scope d \<and> d \<noteq> 0
                                then locator_latest l (view rtxn) e d else None)"
proof -
  let ?p = "SeekEntity l e"
  let ?xs = "locator_entries l (view rtxn) e"
  have all: "\<forall>it\<in>set ?xs. HasPrefix (fst it) ?p \<and> (\<exists>d. key_dataset (fst it) = Inr d)"
    using wf by (auto simp: wellformed_keys_def locator_entries_def dest: under_prefix_HasPrefix)
  from locator_loop_fold[OF all, of "badger l" scope "([], 0, [])"]
  obtain st' where
    1: "locator_loop (badger l) scope ?p ?xs ([], 0, []) = Inr st'" and
    2: "pending_map st' = fold (commit_item (badger l) scope) ?xs (pending_map ([], 0, []))" and
    3: "distinct (map fst (snd (snd st')))"
    by auto
  obtain pv pd ps where st': "st' = (pv, pd, ps)" by (cases st') auto
  have loop: "locator_loop (badger l) scope ?p (Seek ?p (NewIterator rtxn)) ([], 0, []) = Inr st'"
    using 1 locator_loop_takeWhile[of "badger l" scope ?p "Seek ?p (NewIterator rtxn)"]
    by (simp add: locator_entries_def under_prefix_def NewIterator_def)
  let ?final = "if pd \<noteq> 0 then AList.update pd pv ps else ps"
  have res: "scan_partials l rtxn e scope = Inr ?final"
    by (simp add: scan_partials_def loop st')
  have dist: "distinct (map fst ?final)"
    using 3 by (simp add: st' distinct_update)
  have "map_of ?final = pending_map st'"
    by (simp add: pending_map_def st' update_conv')
  also have "\<dots> = fold (commit_item (badger l) scope) ?xs Map.empty"
    using 2 by (simp add: pending_map_def)
  also have "\<dots> = (\<lambda>d. if retained (badger l) scope d \<and> d \<noteq> 0
                                then locator_latest l (view rtxn) e d else None)"
    by (rule ext) (simp add: fold_commit_item locator_latest_def split: option.splits)
  finally show ?thesis using res dist by blast
qed

lemma locator_loop_panic:
  assumes "it \<in> set xs" "\<forall>x\<in>set xs. HasPrefix (fst x) p" "key_dataset (fst it) = Inl err"
  shows "\<exists>err'. locator_loop b scope p xs st = Inl err'"
  using assms
proof (induction xs arbitrary: st)
  case Nil
  then show ?case by simp
next
  case (Cons x rest)
  obtain pv pd ps where st: "st = (pv, pd, ps)" by (cases st) auto
  show ?case
  proof (cases "key_dataset (fst x)")
    case (Inl e)
    then show ?thesis using Cons.prems by (simp add: st)
  next
    case (Inr d)
    then have "it \<in> set rest" using Cons.prems by auto
    then have "\<And>st. \<exists>err'. locator_loop b scope p rest st = Inl err'"
      using Cons.IH Cons.prems by simp
    then show ?thesis using Cons.prems Inr
      by (simp add: st Let_def)
  qed
qed

lemma changes_loop_takeWhile:
  "changes_loop l p its acc = changes_loop l p (takeWhile (\<lambda>it. HasPrefix (fst it) p) its) acc"
  by (induction its arbitrary: acc) (auto split: option.splits)

lemma changes_loop_those:
  assumes "\<forall>it\<in>set xs. HasPrefix (fst it) p"
  shows "changes_loop l p xs acc =
           (case those (map (\<lambda>it. Unmarshal l (snd it)) xs) of
              None \<Rightarrow> Inl Corrupt | Some ds \<Rightarrow> Inr (acc @ ds))"
  using assms
  by (induction xs arbitrary: acc) (auto split: option.splits)

lemma loadChanges_result:
  "fst (loadChanges l rtxn e d) =
     (case decoded_changes l (view rtxn) d e of None \<Rightarrow> Inl Corrupt | Some ds \<Rightarrow> Inr ds)"
proof -
  let ?p = "SeekEntityChanges l d e"
  have "changes_loop l ?p (Rewind ?p (NewIterator rtxn)) []
          = changes_loop l ?p (change_entries l (view rtxn) d e) []"
    using changes_loop_takeWhile[of l ?p "Rewind ?p (NewIterator rtxn)" "[]"]
    by (simp add: change_entries_def under_prefix_def Rewind_def NewIterator_def)
  also have "\<dots> = (case decoded_changes l (view rtxn) d e of
                      None \<Rightarrow> Inl Corrupt | Some ds \<Rightarrow> Inr ds)"
  proof -
    have hp: "\<forall>it\<in>set (change_entries l (view rtxn) d e). HasPrefix (fst it) ?p"
      by (auto simp: change_entries_def dest: under_prefix_HasPrefix)
    show ?thesis
      by (simp add: changes_loop_those[OF hp] decoded_changes_def split: option.splits)
  qed
  finally show ?thesis by (simp add: loadChanges_def Let_def)
qed

lemma loadChanges_events:
  "snd (loadChanges l rtxn e d) =
     [IterOpened (SeekEntityChanges l d e), IterClosed (SeekEntityChanges l d e)]"
  by (simp add: loadChanges_def Let_def)

lemma collect_result:
  "fst (collect l rtxn e ps r) =
     (if \<forall>p\<in>set ps. dataset_detail l (view rtxn) e p \<noteq> None
      then Inr (fold (put_detail l (view rtxn) e) ps r)
      else Inl Corrupt)"
proof (induction ps arbitrary: r)
  case Nil
  show ?case by simp
next
  case (Cons p rest)
  obtain d bs where p: "p = (d, bs)" by (cases p) auto
  show ?case
  proof (cases "LookupDatasetName (badger l) d")
    case None
    then have dd: "dataset_detail l (view rtxn) e (d, bs) = Some (Placeholder ''UNEXPECTED: dataset name not found'')"
      by (simp add: dataset_detail_def)
    have pd: "\<And>r. put_detail l (view rtxn) e (d, bs) r
        = r(Sprintf_v d \<mapsto> Placeholder ''UNEXPECTED: dataset name not found'')"
      by (simp add: put_detail_def dd result_key_def None)
    show ?thesis using None by (simp add: p Cons.IH dd pd)
  next
    case (Some n)
    show ?thesis
    proof (cases "Unmarshal l bs")
      case None
      then have dd: "dataset_detail l (view rtxn) e (d, bs) = None"
        using Some by (simp add: dataset_detail_def)
      show ?thesis using Some None by (simp add: p dd)
    next
      case (Some entity)
      note ent = Some
      show ?thesis
      proof (cases "decoded_changes l (view rtxn) d e")
        case None
        then have dd: "dataset_detail l (view rtxn) e (d, bs) = None"
          using \<open>LookupDatasetName (badger l) d = Some n\<close> ent by (simp add: dataset_detail_def)
        have "fst (loadChanges l rtxn e d) = Inl Corrupt"
          by (simp add: loadChanges_result None)
        then obtain evs where lc: "loadChanges l rtxn e d = (Inl Corrupt, evs)"
          by (cases "loadChanges l rtxn e d") auto
        show ?thesis using \<open>LookupDatasetName (badger l) d = Some n\<close> ent lc
          by (simp add: p dd)
      next
        case (Some chs)
        then have dd: "dataset_detail l (view rtxn) e (d, bs) = Some (Entry entity chs)"
          using \<open>LookupDatasetName (badger l) d = Some n\<close> ent by (simp add: dataset_detail_def)
        have pd: "\<And>r. put_detail l (view rtxn) e (d, bs) r = r(n \<mapsto> Entry entity chs)"
          using \<open>LookupDatasetName (badger l) d = Some n\<close>
          by (simp add: put_detail_def dd result_key_def)
        have "fst (loadChanges l rtxn e d) = Inr chs"
          by (simp add: loadChanges_result Some)
        then obtain evs where lc: "loadChanges l rtxn e d = (Inr chs, evs)"
          by (cases "loadChanges l rtxn e d") auto
        have "fst (collect l rtxn e (p # rest) r)
                = fst (collect l rtxn e rest (r(n \<mapsto> Entry entity chs)))"
          using \<open>LookupDatasetName (badger l) d = Some n\<close> ent lc
          by (simp add: p split: prod.splits)
        then show ?thesis
          by (simp add: p Cons.IH dd pd)
      qed
    qed
  qed
qed

lemma collect_events: "list_all is_iterator_event (snd (collect l rtxn e ps r))"
proof (induction ps arbitrary: r)
  case Nil
  show ?case by simp
next
  case (Cons p rest)
  obtain d bs where p: "p = (d, bs)" by (cases p) auto
  have lc: "list_all is_iterator_event (snd (loadChanges l rtxn e d))"
    by (simp add: loadChanges_events is_iterator_event_def)
  show ?case using Cons.IH lc
    by (auto simp: p split: option.splits prod.splits sum.splits) (metis snd_conv)
qed

lemma fold_put_dom:
  "dom (fold (put_detail l db e) ps r) = dom r \<union> result_key l ` fst ` set ps"
  by (induction ps arbitrary: r) (auto simp: put_detail_def)

lemma fold_put_other:
  "k \<notin> result_key l ` fst ` set ps \<Longrightarrow> fold (put_detail l db e) ps r k = r k"
  by (induction ps arbitrary: r) (auto simp: put_detail_def)

lemma fold_put_get:
  "distinct (map (\<lambda>p. result_key l (fst p)) ps) \<Longrightarrow> p \<in> set ps \<Longrightarrow>
     fold (put_detail l db e) ps r (result_key l (fst p)) = Some (the (dataset_detail l db e p))"
proof (induction ps arbitrary: r)
  case Nil
  then show ?case by simp
next
  case (Cons q rest)
  show ?case
  proof (cases "p = q")
    case True
    have "result_key l (fst q) \<notin> result_key l ` fst ` set rest"
      using Cons.prems(1) by (auto simp: image_iff)
    then show ?thesis
      using True by (simp add: fold_put_other) (simp add: put_detail_def)
  next
    case False
    then show ?thesis using Cons by simp
  qed
qed

lemma fold_put_cases:
  "fold (put_detail l db e) ps r k = Some v \<Longrightarrow>
     r k = Some v \<or> (\<exists>p\<in>set ps. result_key l (fst p) = k \<and> v = the (dataset_detail l db e p))"
proof (induction ps arbitrary: r)
  case Nil
  then show ?case by simp
next
  case (Cons q rest)
  from Cons.prems have "fold (put_detail l db e) rest (put_detail l db e q r) k = Some v"
    by simp
  from Cons.IH[OF this] show ?case
    by (auto simp: put_detail_def split: if_splits)
qed

lemma dataset_of_Some: "(dataset_of it = Some d) = (key_dataset (fst it) = Inr d)"
  by (simp add: dataset_of_def split: sum.splits)

lemma set_locator_datasets:
  "(d \<in> set (locator_datasets l db e)) =
     (\<exists>it\<in>set (locator_entries l db e). key_dataset (fst it) = Inr d)"
proof -
  have "(d \<in> set (List.map_filter dataset_of xs)) = (\<exists>it\<in>set xs. dataset_of it = Some d)"
    for xs
    by (induction xs) (auto split: option.splits)
  then show ?thesis
    by (simp add: locator_datasets_def dataset_of_Some)
qed

lemma locator_latest_datasets:
  "(locator_latest l db e d \<noteq> None) = (d \<in> set (locator_datasets l db e))"
proof -
  have "(locator_latest l db e d \<noteq> None) = (dataset_entries d (locator_entries l db e) \<noteq> [])"
    by (simp add: locator_latest_def last_value_def split: list.splits)
  also have "\<dots> = (\<exists>it\<in>set (locator_entries l db e). key_dataset (fst it) = Inr d)"
    by (simp add: dataset_entries_def filter_empty_conv)
  finally show ?thesis by (simp add: set_locator_datasets)
qed

lemma Details_resolved:
  assumes "asCURIE l ident = Inr c" and "curie_ids (GetDB (badger l)) c = Some e"
  shows "fst (Details l ident names) =
           (case scan_partials l (NewTransaction (GetDB (badger l)) False) e
                   (LookupDatasetIDs (badger l) names) of
              Inl err \<Rightarrow> Inl err
            | Inr ps \<Rightarrow> fst (collect l (NewTransaction (GetDB (badger l)) False) e
                              (range_order l ps) Map.empty))"
  using assms
  by (simp add: Details_def InternalIDForCURIE_def NewTransaction_def loadDetails_def Let_def
      split: sum.splits prod.splits)

lemma Details_Inr_resolved:
  assumes "fst (Details l ident names) = Inr m"
  shows "\<exists>c e. asCURIE l ident = Inr c \<and> curie_ids (GetDB (badger l)) c = Some e"
  using assms
  by (auto simp: Details_def InternalIDForCURIE_def NewTransaction_def Let_def
      split: sum.splits option.splits)

lemma scan_partials_wellformed:
  assumes "scan_partials l rtxn e scope = Inr ps"
  shows "wellformed_keys (locator_entries l (view rtxn) e)"
proof (rule ccontr)
  let ?p = "SeekEntity l e"
  let ?xs = "locator_entries l (view rtxn) e"
  assume "\<not> wellformed_keys ?xs"
  then obtain it err where it: "it \<in> set ?xs" "key_dataset (fst it) = Inl err"
    by (auto simp: wellformed_keys_def) (metis sum.exhaust)
  have hp: "\<forall>x\<in>set ?xs. HasPrefix (fst x) ?p"
    by (auto simp: locator_entries_def dest: under_prefix_HasPrefix)
  from locator_loop_panic[OF it(1) hp it(2), of "badger l" scope "([], 0, [])"]
  obtain err' where "locator_loop (badger l) scope ?p ?xs ([], 0, []) = Inl err'" by blast
  then have "locator_loop (badger l) scope ?p (Seek ?p (NewIterator rtxn)) ([], 0, []) = Inl err'"
    using locator_loop_takeWhile[of "badger l" scope ?p "Seek ?p (NewIterator rtxn)"]
    by (simp add: locator_entries_def under_prefix_def NewIterator_def)
  then show False using assms by (simp add: scan_partials_def)
qed

lemma scan_partials_keys:
  assumes "scan_partials l rtxn e scope = Inr ps"
  shows "distinct (map fst ps)"
    and "map_of ps = (\<lambda>d. if retained (badger l) scope d \<and> d \<noteq> 0
                           then locator_latest l (view rtxn) e d else None)"
    and "fst ` set ps = set (accumulated l (view rtxn) e scope)"
proof -
  from scan_partials_ok[OF scan_partials_wellformed[OF assms], of scope] assms
  show d: "distinct (map fst ps)"
    and m: "map_of ps = (\<lambda>d. if retained (badger l) scope d \<and> d \<noteq> 0
                           then locator_latest l (view rtxn) e d else None)"
    by auto
  have "fst ` set ps = dom (map_of ps)" by (simp add: dom_map_of_conv_image_fst)
  also have "\<dots> = set (accumulated l (view rtxn) e scope)"
    using locator_latest_datasets[of l "view rtxn" e]
    by (auto simp: m accumulated_def dom_def split: if_splits)
  finally show "fst ` set ps = set (accumulated l (view rtxn) e scope)" .
qed

lemma range_permutes_set: "range_permutes l \<Longrightarrow> set (range_order l xs) = set xs"
  by (metis range_permutes_def set_mset_mset)

lemma range_permutes_distinct:
  "range_permutes l \<Longrightarrow> distinct (map f xs) \<Longrightarrow> distinct (map f (range_order l xs))"
proof -
  assume p: "range_permutes l" and d: "distinct (map f xs)"
  have "mset (map f (range_order l xs)) = mset (map f xs)"
    using p by (simp add: range_permutes_def)
  then show ?thesis using d by (metis mset_eq_imp_distinct_iff)
qed

lemma Details_success:
  assumes perm: "range_permutes l" and res: "fst (Details l ident names) = Inr m"
  obtains c e ps where
    "asCURIE l ident = Inr c" and "curie_ids (GetDB (badger l)) c = Some e" and
    "scan_partials l (NewTransaction (GetDB (badger l)) False) e
        (LookupDatasetIDs (badger l) names) = Inr ps" and
    "\<forall>p\<in>set ps. dataset_detail l (GetDB (badger l)) e p \<noteq> None" and
    "m = fold (put_detail l (GetDB (badger l)) e) (range_order l ps) Map.empty"
proof -
  let ?db = "GetDB (badger l)"
  let ?rtxn = "NewTransaction ?db False"
  have v: "view ?rtxn = ?db" by (simp add: NewTransaction_def)
  from Details_Inr_resolved[OF res] obtain c e where
    c: "asCURIE l ident = Inr c" and e: "curie_ids ?db c = Some e" by blast
  from res obtain ps where
    ps: "scan_partials l ?rtxn e (LookupDatasetIDs (badger l) names) = Inr ps" and
    col: "fst (collect l ?rtxn e (range_order l ps) Map.empty) = Inr m"
    by (auto simp: Details_resolved[OF c e] split: sum.splits)
  from col have all: "\<forall>p\<in>set (range_order l ps). dataset_detail l ?db e p \<noteq> None"
    and m: "m = fold (put_detail l ?db e) (range_order l ps) Map.empty"
    by (auto simp: collect_result v split: if_splits)
  from all have "\<forall>p\<in>set ps. dataset_detail l ?db e p \<noteq> None"
    by (simp add: range_permutes_set[OF perm])
  with c e ps m show ?thesis using that by blast
qed

lemma Details_keys:
  assumes perm: "range_permutes l" and res: "fst (Details l ident names) = Inr m"
    and c: "asCURIE l ident = Inr c" and e: "curie_ids (GetDB (badger l)) c = Some e"
  shows "dom m = result_key l `
            set (accumulated l (GetDB (badger l)) e (LookupDatasetIDs (badger l) names))"
proof -
  let ?db = "GetDB (badger l)"
  let ?rtxn = "NewTransaction ?db False"
  have v: "view ?rtxn = ?db" by (simp add: NewTransaction_def)
  from Details_success[OF perm res] obtain c' e' ps where
    c': "asCURIE l ident = Inr c'" and e': "curie_ids ?db c' = Some e'" and
    ps: "scan_partials l ?rtxn e' (LookupDatasetIDs (badger l) names) = Inr ps" and
    m: "m = fold (put_detail l ?db e') (range_order l ps) Map.empty"
    by blast
  from c c' e e' have ee: "e' = e" by simp
  have "dom m = result_key l ` fst ` set ps"
    by (simp add: m fold_put_dom range_permutes_set[OF perm])
  also have "fst ` set ps = set (accumulated l ?db e (LookupDatasetIDs (badger l) names))"
    using scan_partials_keys(3)[OF ps] by (simp add: v ee)
  finally show ?thesis .
qed

lemma accumulated_iff:
  "(d \<in> set (accumulated l db e scope)) =
     (d \<noteq> 0 \<and> \<not> IsDatasetDeleted (badger l) d \<and> (scope = [] \<or> d \<in> set scope)
      \<and> d \<in> set (locator_datasets l db e))"
  by (auto simp: accumulated_def retained_def)

lemma fold_apply_iterator_events:
  "list_all is_iterator_event evs \<Longrightarrow> fold apply_event evs (db, pending) = (db, pending)"
  by (induction evs) (auto simp: is_iterator_event_def split: event.splits)

lemma loadDetails_events:
  "\<exists>evs. snd (loadDetails l rtxn e scope) = evs \<and> list_all is_iterator_event evs"
proof (cases "scan_partials l rtxn e scope")
  case (Inl err)
  then show ?thesis by (simp add: loadDetails_def Let_def is_iterator_event_def)
next
  case (Inr ps)
  have "list_all is_iterator_event (snd (collect l rtxn e (range_order l ps) Map.empty))"
    by (rule collect_events)
  then show ?thesis using Inr
    by (auto simp: loadDetails_def Let_def is_iterator_event_def split: prod.splits)
qed

lemma skipped_wellformed: "skipped b scope it \<Longrightarrow> \<exists>d. key_dataset (fst it) = Inr d"
  by (cases "key_dataset (fst it)") (auto simp: skipped_def)

lemma those_None_iff: "(those xs = None) = (None \<in> set xs)"
  by (induction xs) (auto split: option.splits)

lemma those_Some_map: "those xs = Some ys \<Longrightarrow> xs = map Some ys"
  by (induction xs arbitrary: ys) (auto split: option.splits)

lemma scan_partials_entry:
  assumes ps: "scan_partials l rtxn e scope = Inr ps"
    and d: "d \<in> set (accumulated l (view rtxn) e scope)"
  shows "\<exists>b. (d, b) \<in> set ps \<and> locator_latest l (view rtxn) e d = Some b"
proof -
  from d have r: "retained (badger l) scope d \<and> d \<noteq> 0"
    and app: "d \<in> set (locator_datasets l (view rtxn) e)"
    by (auto simp: accumulated_def)
  from app obtain b where b: "locator_latest l (view rtxn) e d = Some b"
    using locator_latest_datasets[of l "view rtxn" e d] by auto
  have "map_of ps d = Some b"
    using scan_partials_keys(2)[OF ps] r b by simp
  then have "(d, b) \<in> set ps" by (rule map_of_SomeD)
  with b show ?thesis by blast
qed

lemma scan_partials_member:
  assumes ps: "scan_partials l rtxn e scope = Inr ps" and p: "(d, b) \<in> set ps"
  shows "d \<in> set (accumulated l (view rtxn) e scope) \<and> locator_latest l (view rtxn) e d = Some b"
proof -
  have "map_of ps d = Some b"
    using scan_partials_keys(1)[OF ps] p by simp
  then have "locator_latest l (view rtxn) e d = Some b"
    using scan_partials_keys(2)[OF ps] by (simp split: if_splits)
  moreover have "d \<in> set (accumulated l (view rtxn) e scope)"
    using scan_partials_keys(3)[OF ps] p by force
  ultimately show ?thesis by blast
qed

lemma wellformed_keys_iff:
  "wellformed_keys xs = list_all (\<lambda>it. \<not> isl (key_dataset (fst it))) xs"
proof -
  have "(\<exists>d. k = Inr d) = (\<not> isl k)" for k :: "error + InternalDatasetID"
    by (cases k) auto
  then show ?thesis
    by (simp add: wellformed_keys_def list_all_iff)
qed

lemma sorted_under_prefix:
  "sorted (map fst its) \<Longrightarrow> sorted (map fst (under_prefix p its))"
  by (simp add: under_prefix_def Seek_def sorted_map)

lemma Details_unresolved_filter:
  "LookupDatasetIDs (badger l) names = [] \<Longrightarrow> Details l ident names = Details l ident []"
  by (simp add: Details_def Let_def split: sum.splits)

lemma locator_loop_store:
  "IsDatasetDeleted b' = IsDatasetDeleted b \<Longrightarrow>
     locator_loop b' scope p its st = locator_loop b scope p its st"
proof (induction its arbitrary: st)
  case Nil
  show ?case by simp
next
  case (Cons it rest)
  obtain pv pd ps where st: "st = (pv, pd, ps)" by (cases st) auto
  have IH: "\<And>st. locator_loop b' scope p rest st = locator_loop b scope p rest st"
    using Cons by blast
  show ?case
  proof (cases "key_dataset (fst it)")
    case (Inl err)
    then show ?thesis by (simp add: st)
  next
    case (Inr d)
    have del: "IsDatasetDeleted b' d = IsDatasetDeleted b d" using Cons.prems by simp
    show ?thesis
      unfolding st locator_loop.simps Inr sum.case Let_def del IH ..
  qed
qed

lemma changes_loop_store:
  "Unmarshal l' = Unmarshal l \<Longrightarrow> changes_loop l' p its acc = changes_loop l p its acc"
  by (induction its arbitrary: acc) (auto split: option.splits)

lemma loadChanges_store:
  "same_helpers l l' \<Longrightarrow> loadChanges l' rtxn e d = loadChanges l rtxn e d"
  by (simp add: loadChanges_def same_helpers_def changes_loop_store[of l' l])

lemma collect_store:
  assumes h: "same_helpers l l'"
    and n: "LookupDatasetName (badger l') = LookupDatasetName (badger l)"
  shows "collect l' rtxn e ps = collect l rtxn e ps"
proof (induction ps)
  case Nil
  show ?case by (rule ext) simp
next
  case (Cons p rest)
  obtain d bs where p: "p = (d, bs)" by (cases p) auto
  have u: "Unmarshal l' = Unmarshal l" using h by (simp add: same_helpers_def)
  show ?case
    by (rule ext)
       (simp add: p n u loadChanges_store[OF h] Cons.IH
          split: option.splits sum.splits prod.splits)
qed

lemma scan_partials_store:
  assumes h: "same_helpers l l'"
    and del: "IsDatasetDeleted (badger l') = IsDatasetDeleted (badger l)"
  shows "scan_partials l' rtxn e scope = scan_partials l rtxn e scope"
proof -
  have se: "SeekEntity l' = SeekEntity l" using h by (simp add: same_helpers_def)
  show ?thesis
    unfolding scan_partials_def se locator_loop_store[OF del] ..
qed

lemma LookupDatasetIDs_store:
  "LookupDatasetID b' = LookupDatasetID b \<Longrightarrow> LookupDatasetIDs b' names = LookupDatasetIDs b names"
  by (induction names) (simp_all split: option.splits)

lemma Details_as_opened:
  "Details l ident names =
     (case asCURIE l ident of
        Inl err \<Rightarrow> (Inl err, [])
      | Inr curie \<Rightarrow>
          Details_opened l (NewTransaction (GetDB (badger l)) False) curie names)"
  by (simp add: Details_def Details_opened_def Let_def split: sum.splits)

section \<open>Properties of the lookup\<close>

text \<open>
  C1: the key set under a non-empty filter, and a filter of unknown names.  The keys of a
  result are those of the accumulated datasets (lemma \<open>Details_keys\<close>); but the scan tests the
  length of the resolved scope, so a non-empty filter whose names are all unknown restricts
  nothing.  In the example store the filter \<open>nosuch\<close> resolves to no id, and the call for
  \<open>ex:3\<close> returns \<open>people\<close> and \<open>contacts\<close> all the same.
\<close>

theorem unknown_filter_is_unrestricted:
  "LookupDatasetIDs (badger ex_lookup) [''nosuch''] = []
   \<and> Details ex_lookup ''ex:3'' [''nosuch''] = Details ex_lookup ''ex:3'' []
   \<and> (\<exists>m. fst (Details ex_lookup ''ex:3'' [''nosuch'']) = Inr m
          \<and> m ''people'' = Some (Entry [123, 2] [[123, 1], [123, 2]])
          \<and> m ''contacts'' = Some (Entry [123, 3] [[123, 3]]))"
proof -
  have s: "LookupDatasetIDs (badger ex_lookup) [''nosuch''] = []" by code_simp
  have ev: "case fst (Details ex_lookup ''ex:3'' [''nosuch'']) of Inl _ \<Rightarrow> False
            | Inr m \<Rightarrow> m ''people'' = Some (Entry [123, 2] [[123, 1], [123, 2]])
                       \<and> m ''contacts'' = Some (Entry [123, 3] [[123, 3]])"
    by code_simp
  then obtain m where m: "fst (Details ex_lookup ''ex:3'' [''nosuch'']) = Inr m"
    by (cases "fst (Details ex_lookup ''ex:3'' [''nosuch''])") auto
  with ev s Details_unresolved_filter[OF s, of "''ex:3''"] show ?thesis by auto
qed

text \<open>
  C2: which state the lookups of a call read.  The id resolution, the locator scan and the
  change-log scan read the transaction: for a store that has changed since the transaction
  was opened, but whose dataset tables are the same, the rest of the call returns what it
  returns on the unchanged store, whatever the database of the store holds by then.  What
  is committed to the database after the transaction was opened is not observed.
\<close>

theorem later_database_writes_not_observed:
  assumes h: "same_helpers l l'" and t: "same_dataset_tables (badger l) (badger l')"
  shows "Details_opened l' rtxn curie names = Details_opened l rtxn curie names"
proof -
  from t have ids: "LookupDatasetIDs (badger l') names = LookupDatasetIDs (badger l) names"
    and n: "LookupDatasetName (badger l') = LookupDatasetName (badger l)"
    and del: "IsDatasetDeleted (badger l') = IsDatasetDeleted (badger l)"
    by (simp_all add: same_dataset_tables_def LookupDatasetIDs_store[of "badger l'" "badger l"])
  have ro: "range_order l' = range_order l" and se: "SeekEntity l' = SeekEntity l"
    using h by (simp_all add: same_helpers_def)
  have "loadDetails l' rtxn i (LookupDatasetIDs (badger l) names)
          = loadDetails l rtxn i (LookupDatasetIDs (badger l) names)" for i
    unfolding loadDetails_def ro se scan_partials_store[OF h del] collect_store[OF h n] ..
  then show ?thesis
    by (simp add: Details_opened_def ids Let_def split: sum.splits)
qed

theorem later_database_writes_not_observed_witness:
  "same_helpers ex_lookup ex_lookup_written
   \<and> same_dataset_tables (badger ex_lookup) (badger ex_lookup_written)
   \<and> kv (GetDB (badger ex_lookup_written)) \<noteq> kv (GetDB (badger ex_lookup))
   \<and> Details_opened ex_lookup_written (NewTransaction (GetDB (badger ex_lookup)) False) ''ex:3'' []
      = Details_opened ex_lookup (NewTransaction (GetDB (badger ex_lookup)) False) ''ex:3'' []
   \<and> (case fst (Details ex_lookup ''ex:3'' []) of Inl _ \<Rightarrow> False
       | Inr m \<Rightarrow> m ''people'' = Some (Entry [123, 2] [[123, 1], [123, 2]]))
   \<and> (case fst (Details ex_lookup_written ''ex:3'' []) of Inl _ \<Rightarrow> False
       | Inr m \<Rightarrow> m ''people'' = Some (Entry [123, 9] [[123, 1], [123, 2], [123, 9]]))"
proof -
  have h: "same_helpers ex_lookup ex_lookup_written"
    by (simp add: same_helpers_def ex_lookup_written_def)
  have t: "same_dataset_tables (badger ex_lookup) (badger ex_lookup_written)"
    by (simp add: same_dataset_tables_def ex_lookup_written_def ex_lookup_def)
  have w: "kv (GetDB (badger ex_lookup_written)) \<noteq> kv (GetDB (badger ex_lookup))"
    by code_simp
  have a: "case fst (Details ex_lookup ''ex:3'' []) of Inl _ \<Rightarrow> False
       | Inr m \<Rightarrow> m ''people'' = Some (Entry [123, 2] [[123, 1], [123, 2]])"
    by code_simp
  have b: "case fst (Details ex_lookup_written ''ex:3'' []) of Inl _ \<Rightarrow> False
       | Inr m \<Rightarrow> m ''people'' = Some (Entry [123, 9] [[123, 1], [123, 2], [123, 9]])"
    by code_simp
  from later_database_writes_not_observed[OF h t] h t w a b show ?thesis by blast
qed

text \<open>
  C2 as stated, for every lookup, fails: the scope resolution, the deletion check and the
  name resolution are calls on the store, which are not given the transaction.  With the
  same transaction and the same database, a dataset marked deleted in the store after the
  transaction was opened is missing from the result.
\<close>

theorem dataset_tables_bypass_transaction:
  "same_helpers ex_lookup ex_lookup_deleted
   \<and> GetDB (badger ex_lookup_deleted) = GetDB (badger ex_lookup)
   \<and> fst (Details_opened ex_lookup_deleted (NewTransaction (GetDB (badger ex_lookup)) False)
            ''ex:3'' [])
      \<noteq> fst (Details_opened ex_lookup (NewTransaction (GetDB (badger ex_lookup)) False)
            ''ex:3'' [])"
proof -
  let ?rtxn = "NewTransaction (GetDB (badger ex_lookup)) False"
  have h: "same_helpers ex_lookup ex_lookup_deleted"
    by (simp add: same_helpers_def ex_lookup_deleted_def)
  have g: "GetDB (badger ex_lookup_deleted) = GetDB (badger ex_lookup)"
    by (simp add: ex_lookup_deleted_def ex_lookup_def ex_store_def)
  have a: "case fst (Details_opened ex_lookup ?rtxn ''ex:3'' []) of
             Inl _ \<Rightarrow> False | Inr m \<Rightarrow> m ''people'' \<noteq> None"
    by code_simp
  have b: "case fst (Details_opened ex_lookup_deleted ?rtxn ''ex:3'' []) of
             Inl _ \<Rightarrow> False | Inr m \<Rightarrow> m ''people'' = None"
    by code_simp
  from a b have "fst (Details_opened ex_lookup_deleted ?rtxn ''ex:3'' [])
      \<noteq> fst (Details_opened ex_lookup ?rtxn ''ex:3'' [])"
    by (auto split: sum.splits)
  with h g show ?thesis by blast
qed

text \<open>
  C3: in a store where, for each accumulated dataset, the value of the entity's last locator
  entry is the value of the last entry of its change log, every \<open>latest\<close> document of a
  result is the last element of its \<open>changes\<close>; and \<open>changes\<close> are the decoded values of the
  change log in the order of the scan, which is ascending in the key when the database is.
\<close>

theorem latest_is_last_change:
  assumes perm: "range_permutes l"
    and c: "asCURIE l ident = Inr c" and e: "curie_ids (GetDB (badger l)) c = Some i"
    and res: "fst (Details l ident names) = Inr m"
    and entry: "m n = Some (Entry lat chs)"
    and cons: "\<forall>d\<in>set (accumulated l (GetDB (badger l)) i (LookupDatasetIDs (badger l) names)).
                 LookupDatasetName (badger l) d = Some n \<longrightarrow>
                 locator_latest l (GetDB (badger l)) i d
                   = last_value (change_entries l (GetDB (badger l)) d i)"
    and srt: "sorted (map fst (kv (GetDB (badger l))))"
  shows "chs \<noteq> [] \<and> lat = last chs
         \<and> (\<exists>d\<in>set (accumulated l (GetDB (badger l)) i (LookupDatasetIDs (badger l) names)).
               LookupDatasetName (badger l) d = Some n
               \<and> map (\<lambda>it. Unmarshal l (snd it)) (change_entries l (GetDB (badger l)) d i)
                   = map Some chs
               \<and> sorted (map fst (change_entries l (GetDB (badger l)) d i)))"
proof -
  let ?db = "GetDB (badger l)"
  let ?rtxn = "NewTransaction ?db False"
  let ?scope = "LookupDatasetIDs (badger l) names"
  let ?acc = "accumulated l ?db i ?scope"
  have v: "view ?rtxn = ?db" by (simp add: NewTransaction_def)
  from Details_success[OF perm res] obtain c' i' ps where
    c': "asCURIE l ident = Inr c'" and i': "curie_ids ?db c' = Some i'" and
    ps': "scan_partials l ?rtxn i' ?scope = Inr ps" and
    all': "\<forall>p\<in>set ps. dataset_detail l ?db i' p \<noteq> None" and
    m': "m = fold (put_detail l ?db i') (range_order l ps) Map.empty"
    by blast
  from c c' e i' have ii: "i' = i" by simp
  note ps = ps'[unfolded ii] and all = all'[unfolded ii] and m = m'[unfolded ii]
  from fold_put_cases[of l ?db i "range_order l ps" Map.empty n "Entry lat chs"] entry m
  obtain p where p: "p \<in> set ps" and k: "result_key l (fst p) = n"
    and val: "Entry lat chs = the (dataset_detail l ?db i p)"
    by (auto simp: range_permutes_set[OF perm])
  obtain d b where pd: "p = (d, b)" by (cases p) auto
  from all p have some: "dataset_detail l ?db i (d, b) \<noteq> None" by (auto simp: pd)
  from scan_partials_member[OF ps, of d b] p pd
  have acc: "d \<in> set ?acc" and lat: "locator_latest l ?db i d = Some b"
    by (auto simp: v)
  from some val obtain n' where n': "LookupDatasetName (badger l) d = Some n'"
    and ub: "Unmarshal l b = Some lat" and dc: "decoded_changes l ?db d i = Some chs"
    by (auto simp: dataset_detail_def pd split: option.splits)
  from k n' have nm: "LookupDatasetName (badger l) d = Some n"
    by (simp add: result_key_def pd)
  let ?ces = "change_entries l ?db d i"
  have mp: "map (\<lambda>it. Unmarshal l (snd it)) ?ces = map Some chs"
    using dc by (auto simp: decoded_changes_def dest: those_Some_map)
  from cons acc lat nm have lv: "last_value ?ces = Some b" by auto
  then have ne: "?ces \<noteq> []" and lb: "snd (last ?ces) = b"
    by (auto simp: last_value_def split: list.splits)
  from mp ne have chs_ne: "chs \<noteq> []" by auto
  have "Some (last chs) = last (map Some chs)"
    using chs_ne by (simp add: last_map)
  also have "\<dots> = last (map (\<lambda>it. Unmarshal l (snd it)) ?ces)" by (simp add: mp)
  also have "\<dots> = Unmarshal l (snd (last ?ces))" using ne by (simp add: last_map)
  also have "\<dots> = Some lat" by (simp add: lb ub)
  finally have "lat = last chs" by simp
  moreover have "sorted (map fst ?ces)"
    using srt by (simp add: change_entries_def sorted_under_prefix)
  ultimately show ?thesis using chs_ne acc nm mp by blast
qed

theorem latest_is_last_change_witness:
  "range_permutes ex_lookup \<and> asCURIE ex_lookup ''ex:3'' = Inr ''ex:3''
   \<and> curie_ids (GetDB (badger ex_lookup)) ''ex:3'' = Some 8
   \<and> sorted (map fst (kv (GetDB (badger ex_lookup))))
   \<and> list_all (\<lambda>d. LookupDatasetName (badger ex_lookup) d = Some ''people'' \<longrightarrow>
                   locator_latest ex_lookup (GetDB (badger ex_lookup)) 8 d
                     = last_value (change_entries ex_lookup (GetDB (badger ex_lookup)) d 8))
        (accumulated ex_lookup (GetDB (badger ex_lookup)) 8 (LookupDatasetIDs (badger ex_lookup) []))
   \<and> (\<exists>m. fst (Details ex_lookup ''ex:3'' []) = Inr m
          \<and> m ''people'' = Some (Entry [123, 2] [[123, 1], [123, 2]])
          \<and> [123, 2] = last [[123, 1], [123, 2 :: byte]])"
proof -
  let ?db = "GetDB (badger ex_lookup)"
  let ?acc = "accumulated ex_lookup ?db 8 (LookupDatasetIDs (badger ex_lookup) [])"
  have p: "range_permutes ex_lookup" by (simp add: range_permutes_def ex_lookup_def)
  have c: "asCURIE ex_lookup ''ex:3'' = Inr ''ex:3''" by code_simp
  have e: "curie_ids ?db ''ex:3'' = Some 8" by code_simp
  have srt: "sorted (map fst (kv ?db))" by code_simp
  have cl: "list_all (\<lambda>d. LookupDatasetName (badger ex_lookup) d = Some ''people'' \<longrightarrow>
                   locator_latest ex_lookup ?db 8 d
                     = last_value (change_entries ex_lookup ?db d 8)) ?acc" by code_simp
  then have cons: "\<forall>d\<in>set ?acc. LookupDatasetName (badger ex_lookup) d = Some ''people'' \<longrightarrow>
                   locator_latest ex_lookup ?db 8 d
                     = last_value (change_entries ex_lookup ?db d 8)"
    by (simp add: list_all_iff)
  have ev: "case fst (Details ex_lookup ''ex:3'' []) of Inl _ \<Rightarrow> False
            | Inr m \<Rightarrow> m ''people'' = Some (Entry [123, 2] [[123, 1], [123, 2]])"
    by code_simp
  then obtain m where m: "fst (Details ex_lookup ''ex:3'' []) = Inr m"
    by (cases "fst (Details ex_lookup ''ex:3'' [])") auto
  from ev m have en: "m ''people'' = Some (Entry [123, 2] [[123, 1], [123, 2]])" by simp
  from latest_is_last_change[OF p c e m en cons srt]
  have "[123, 2] = last [[123, 1], [123, 2 :: byte]]" by blast
  with p c e srt cl m en show ?thesis by blast
qed



text \<open>
  C5: when a document the call decodes does not decode (the latest value of an accumulated
  dataset that has a name, or an entry of its change log), the call returns an error, and
  with it no map.
\<close>

theorem corrupt_document_aborts:
  assumes perm: "range_permutes l"
    and c: "asCURIE l ident = Inr c" and e: "curie_ids (GetDB (badger l)) c = Some i"
    and d: "d \<in> set (accumulated l (GetDB (badger l)) i (LookupDatasetIDs (badger l) names))"
    and name: "LookupDatasetName (badger l) d = Some n"
    and bad: "(\<exists>b. locator_latest l (GetDB (badger l)) i d = Some b \<and> Unmarshal l b = None)
              \<or> (\<exists>it\<in>set (change_entries l (GetDB (badger l)) d i). Unmarshal l (snd it) = None)"
  shows "\<exists>err. fst (Details l ident names) = Inl err"
proof -
  let ?db = "GetDB (badger l)"
  let ?rtxn = "NewTransaction ?db False"
  let ?scope = "LookupDatasetIDs (badger l) names"
  have v: "view ?rtxn = ?db" by (simp add: NewTransaction_def)
  show ?thesis
  proof (cases "scan_partials l ?rtxn i ?scope")
    case (Inl err)
    then show ?thesis by (simp add: Details_resolved[OF c e])
  next
    case (Inr ps)
    from scan_partials_entry[OF Inr, of d] d obtain b where
      b: "(d, b) \<in> set ps" and lat: "locator_latest l ?db i d = Some b"
      by (auto simp: v)
    have "dataset_detail l ?db i (d, b) = None"
    proof (cases "Unmarshal l b")
      case None
      then show ?thesis using name by (simp add: dataset_detail_def)
    next
      case (Some ent)
      with bad lat obtain it where "it \<in> set (change_entries l ?db d i)"
        and "Unmarshal l (snd it) = None" by auto
      then have "decoded_changes l ?db d i = None"
        by (force simp: decoded_changes_def those_None_iff)
      then show ?thesis using name Some by (simp add: dataset_detail_def)
    qed
    with b have "\<not> (\<forall>p\<in>set (range_order l ps). dataset_detail l ?db i p \<noteq> None)"
      by (auto simp: range_permutes_set[OF perm])
    then have "fst (collect l ?rtxn i (range_order l ps) Map.empty) = Inl Corrupt"
      by (simp add: collect_result v)
    then show ?thesis by (simp add: Details_resolved[OF c e] Inr)
  qed
qed

theorem corrupt_document_aborts_witness:
  "range_permutes ex_lookup \<and> asCURIE ex_lookup ''ex:5'' = Inr ''ex:5''
   \<and> curie_ids (GetDB (badger ex_lookup)) ''ex:5'' = Some 10
   \<and> 1 \<in> set (accumulated ex_lookup (GetDB (badger ex_lookup)) 10
                 (LookupDatasetIDs (badger ex_lookup) []))
   \<and> LookupDatasetName (badger ex_lookup) 1 = Some ''people''
   \<and> list_ex (\<lambda>it. Unmarshal ex_lookup (snd it) = None)
        (change_entries ex_lookup (GetDB (badger ex_lookup)) 1 10)
   \<and> (\<exists>err. fst (Details ex_lookup ''ex:5'' []) = Inl err)"
proof -
  have p: "range_permutes ex_lookup" by (simp add: range_permutes_def ex_lookup_def)
  have c: "asCURIE ex_lookup ''ex:5'' = Inr ''ex:5''" by code_simp
  have e: "curie_ids (GetDB (badger ex_lookup)) ''ex:5'' = Some 10" by code_simp
  have d: "1 \<in> set (accumulated ex_lookup (GetDB (badger ex_lookup)) 10
                 (LookupDatasetIDs (badger ex_lookup) []))" by code_simp
  have n: "LookupDatasetName (badger ex_lookup) 1 = Some ''people''" by code_simp
  have b: "list_ex (\<lambda>it. Unmarshal ex_lookup (snd it) = None)
        (change_entries ex_lookup (GetDB (badger ex_lookup)) 1 10)" by code_simp
  then have b': "(\<exists>b. locator_latest ex_lookup (GetDB (badger ex_lookup)) 10 1 = Some b
                     \<and> Unmarshal ex_lookup b = None)
     \<or> (\<exists>it\<in>set (change_entries ex_lookup (GetDB (badger ex_lookup)) 1 10).
           Unmarshal ex_lookup (snd it) = None)"
    by (simp add: list_ex_iff)
  from corrupt_document_aborts[OF p c e d n b'] p c e d n b show ?thesis by blast
qed

text \<open>
  C6: an accumulated dataset without a name does not make the call fail, and its placeholder
  stands beside the entries of the others as long as no two accumulated datasets share a
  result key.  When the keys of the scanned entries can be read, the documents of the
  datasets that have a name decode, and the result keys of the accumulated datasets are
  pairwise different, the call returns a map that holds the placeholder under the decimal
  dataset id and the entry of every dataset that has a name.
\<close>

theorem unnamed_dataset_gets_placeholder:
  assumes perm: "range_permutes l"
    and c: "asCURIE l ident = Inr c" and e: "curie_ids (GetDB (badger l)) c = Some i"
    and wf: "wellformed_keys (locator_entries l (GetDB (badger l)) i)"
    and d0: "d0 \<in> set (accumulated l (GetDB (badger l)) i (LookupDatasetIDs (badger l) names))"
    and unnamed: "LookupDatasetName (badger l) d0 = None"
    and dec: "\<forall>d\<in>set (accumulated l (GetDB (badger l)) i (LookupDatasetIDs (badger l) names)).
                LookupDatasetName (badger l) d \<noteq> None \<longrightarrow>
                  (\<exists>b. locator_latest l (GetDB (badger l)) i d = Some b \<and> Unmarshal l b \<noteq> None)
                  \<and> decoded_changes l (GetDB (badger l)) d i \<noteq> None"
    and keys: "distinct (map (result_key l)
                 (remdups (accumulated l (GetDB (badger l)) i (LookupDatasetIDs (badger l) names))))"
  shows "\<exists>m. fst (Details l ident names) = Inr m
           \<and> m (Sprintf_v d0) = Some (Placeholder ''UNEXPECTED: dataset name not found'')
           \<and> (\<forall>d n b ent chs.
                 d \<in> set (accumulated l (GetDB (badger l)) i (LookupDatasetIDs (badger l) names))
                 \<and> LookupDatasetName (badger l) d = Some n
                 \<and> locator_latest l (GetDB (badger l)) i d = Some b
                 \<and> Unmarshal l b = Some ent
                 \<and> decoded_changes l (GetDB (badger l)) d i = Some chs
                 \<longrightarrow> m n = Some (Entry ent chs))"
proof -
  let ?db = "GetDB (badger l)"
  let ?rtxn = "NewTransaction ?db False"
  let ?scope = "LookupDatasetIDs (badger l) names"
  let ?acc = "accumulated l ?db i ?scope"
  have v: "view ?rtxn = ?db" by (simp add: NewTransaction_def)
  from scan_partials_ok[of l ?rtxn i ?scope] wf obtain ps where
    ps: "scan_partials l ?rtxn i ?scope = Inr ps" by (auto simp: v)
  have dist: "distinct (map fst ps)" by (rule scan_partials_keys(1)[OF ps])
  have fs: "fst ` set ps = set ?acc" using scan_partials_keys(3)[OF ps] by (simp add: v)
  have inj: "inj_on (result_key l) (set ?acc)"
    using keys by (simp add: distinct_map)
  have "distinct (map (result_key l) (map fst ps))"
    using dist inj fs by (simp add: distinct_map del: map_map)
  then have dk: "distinct (map (\<lambda>p. result_key l (fst p)) ps)"
    by (simp add: comp_def)
  have dk': "distinct (map (\<lambda>p. result_key l (fst p)) (range_order l ps))"
    by (rule range_permutes_distinct[OF perm dk])
  have all: "\<forall>p\<in>set ps. dataset_detail l ?db i p \<noteq> None"
  proof
    fix p assume p: "p \<in> set ps"
    obtain d b where pd: "p = (d, b)" by (cases p) auto
    from scan_partials_member[OF ps, of d b] p pd
    have acc: "d \<in> set ?acc" and lat: "locator_latest l ?db i d = Some b"
      by (auto simp: v)
    show "dataset_detail l ?db i p \<noteq> None"
    proof (cases "LookupDatasetName (badger l) d")
      case None
      then show ?thesis by (simp add: dataset_detail_def pd)
    next
      case (Some n)
      with dec acc lat have "Unmarshal l b \<noteq> None" "decoded_changes l ?db d i \<noteq> None"
        by auto
      then show ?thesis using Some by (auto simp: dataset_detail_def pd)
    qed
  qed
  define m where "m = fold (put_detail l ?db i) (range_order l ps) Map.empty"
  have res: "fst (Details l ident names) = Inr m"
    using all by (simp add: Details_resolved[OF c e] ps collect_result v
        range_permutes_set[OF perm] m_def)
  have get: "m (result_key l d) = Some (the (dataset_detail l ?db i (d, b)))"
    if "(d, b) \<in> set ps" for d b
    using fold_put_get[OF dk', of "(d, b)" ?db i Map.empty] that
    by (simp add: m_def range_permutes_set[OF perm])
  from scan_partials_entry[OF ps, of d0] d0 obtain b0 where b0: "(d0, b0) \<in> set ps"
    by (auto simp: v)
  have ph: "m (Sprintf_v d0) = Some (Placeholder ''UNEXPECTED: dataset name not found'')"
    using get[OF b0] unnamed by (simp add: result_key_def dataset_detail_def)
  have ent: "m n = Some (Entry ent chs)"
    if "d \<in> set ?acc" "LookupDatasetName (badger l) d = Some n"
      "locator_latest l ?db i d = Some b" "Unmarshal l b = Some ent"
      "decoded_changes l ?db d i = Some chs" for d n b ent chs
  proof -
    from scan_partials_entry[OF ps, of d] that(1,3) have "(d, b) \<in> set ps"
      by (auto simp: v)
    from get[OF this] that show ?thesis
      by (simp add: result_key_def dataset_detail_def)
  qed
  from res ph ent show ?thesis by blast
qed

theorem unnamed_dataset_gets_placeholder_witness:
  "range_permutes ex_lookup \<and> asCURIE ex_lookup ''ex:3'' = Inr ''ex:3''
   \<and> curie_ids (GetDB (badger ex_lookup)) ''ex:3'' = Some 8
   \<and> wellformed_keys (locator_entries ex_lookup (GetDB (badger ex_lookup)) 8)
   \<and> 7 \<in> set (accumulated ex_lookup (GetDB (badger ex_lookup)) 8
                 (LookupDatasetIDs (badger ex_lookup) []))
   \<and> LookupDatasetName (badger ex_lookup) 7 = None
   \<and> Sprintf_v 7 = ''7''
   \<and> (\<exists>m. fst (Details ex_lookup ''ex:3'' []) = Inr m
          \<and> m ''7'' = Some (Placeholder ''UNEXPECTED: dataset name not found'')
          \<and> m ''people'' = Some (Entry [123, 2] [[123, 1], [123, 2]])
          \<and> m ''contacts'' = Some (Entry [123, 3] [[123, 3]]))"
proof -
  let ?db = "GetDB (badger ex_lookup)"
  let ?acc = "accumulated ex_lookup ?db 8 (LookupDatasetIDs (badger ex_lookup) [])"
  have p: "range_permutes ex_lookup" by (simp add: range_permutes_def ex_lookup_def)
  have c: "asCURIE ex_lookup ''ex:3'' = Inr ''ex:3''" by code_simp
  have e: "curie_ids ?db ''ex:3'' = Some 8" by code_simp
  have "list_all (\<lambda>it. \<not> isl (key_dataset (fst it))) (locator_entries ex_lookup ?db 8)"
    by code_simp
  then have wf: "wellformed_keys (locator_entries ex_lookup ?db 8)"
    by (simp add: wellformed_keys_iff)
  have d0: "7 \<in> set ?acc" by code_simp
  have un: "LookupDatasetName (badger ex_lookup) 7 = None" by code_simp
  have s7: "Sprintf_v 7 = ''7''" by code_simp
  have "list_all (\<lambda>d. LookupDatasetName (badger ex_lookup) d \<noteq> None \<longrightarrow>
           (case locator_latest ex_lookup ?db 8 d of None \<Rightarrow> False
            | Some b \<Rightarrow> Unmarshal ex_lookup b \<noteq> None)
           \<and> decoded_changes ex_lookup ?db d 8 \<noteq> None) ?acc"
    by code_simp
  then have dec: "\<forall>d\<in>set ?acc. LookupDatasetName (badger ex_lookup) d \<noteq> None \<longrightarrow>
       (\<exists>b. locator_latest ex_lookup ?db 8 d = Some b \<and> Unmarshal ex_lookup b \<noteq> None)
       \<and> decoded_changes ex_lookup ?db d 8 \<noteq> None"
    by (auto simp: list_all_iff split: option.splits)
  have keys: "distinct (map (result_key ex_lookup) (remdups ?acc))" by code_simp
  have f1: "1 \<in> set ?acc \<and> LookupDatasetName (badger ex_lookup) 1 = Some ''people''
      \<and> locator_latest ex_lookup ?db 8 1 = Some [123, 2]
      \<and> Unmarshal ex_lookup [123, 2] = Some [123, 2]
      \<and> decoded_changes ex_lookup ?db 1 8 = Some [[123, 1], [123, 2]]"
    by code_simp
  have f2: "2 \<in> set ?acc \<and> LookupDatasetName (badger ex_lookup) 2 = Some ''contacts''
      \<and> locator_latest ex_lookup ?db 8 2 = Some [123, 3]
      \<and> Unmarshal ex_lookup [123, 3] = Some [123, 3]
      \<and> decoded_changes ex_lookup ?db 2 8 = Some [[123, 3]]"
    by code_simp
  from unnamed_dataset_gets_placeholder[OF p c e wf d0 un dec keys] obtain m where
    m: "fst (Details ex_lookup ''ex:3'' []) = Inr m" and
    ph: "m (Sprintf_v 7) = Some (Placeholder ''UNEXPECTED: dataset name not found'')" and
    ent: "\<And>d n b ent chs. d \<in> set ?acc \<and> LookupDatasetName (badger ex_lookup) d = Some n
                 \<and> locator_latest ex_lookup ?db 8 d = Some b
                 \<and> Unmarshal ex_lookup b = Some ent
                 \<and> decoded_changes ex_lookup ?db d 8 = Some chs
                 \<Longrightarrow> m n = Some (Entry ent chs)"
    by blast
  have "m ''people'' = Some (Entry [123, 2] [[123, 1], [123, 2]])" by (rule ent[OF f1])
  moreover have "m ''contacts'' = Some (Entry [123, 3] [[123, 3]])" by (rule ent[OF f2])
  ultimately show ?thesis using p c e wf d0 un s7 m ph by auto
qed

text \<open>
  C6 as stated, for every store, fails: the placeholder is stored in the result map under a
  string, and a dataset may bear that string as its name.  In the store above every
  condition but the last holds, and no result holds both the placeholder under \<open>7\<close> and
  the entry of the dataset named \<open>7\<close>: visited in one order the entry replaces the
  placeholder, in the other the placeholder replaces the entry.
\<close>

theorem placeholder_key_collision:
  "range_permutes ex_lookup_clash
   \<and> asCURIE ex_lookup_clash ''ex:3'' = Inr ''ex:3''
   \<and> curie_ids (GetDB (badger ex_lookup_clash)) ''ex:3'' = Some 8
   \<and> wellformed_keys (locator_entries ex_lookup_clash (GetDB (badger ex_lookup_clash)) 8)
   \<and> 7 \<in> set (accumulated ex_lookup_clash (GetDB (badger ex_lookup_clash)) 8
                 (LookupDatasetIDs (badger ex_lookup_clash) []))
   \<and> LookupDatasetName (badger ex_lookup_clash) 7 = None
   \<and> 5 \<in> set (accumulated ex_lookup_clash (GetDB (badger ex_lookup_clash)) 8
                 (LookupDatasetIDs (badger ex_lookup_clash) []))
   \<and> LookupDatasetName (badger ex_lookup_clash) 5 = Some ''7''
   \<and> locator_latest ex_lookup_clash (GetDB (badger ex_lookup_clash)) 8 5 = Some [123, 1]
   \<and> Unmarshal ex_lookup_clash [123, 1] = Some [123, 1]
   \<and> decoded_changes ex_lookup_clash (GetDB (badger ex_lookup_clash)) 5 8 = Some [[123, 1]]
   \<and> list_all (\<lambda>d. LookupDatasetName (badger ex_lookup_clash) d \<noteq> None \<longrightarrow>
           (case locator_latest ex_lookup_clash (GetDB (badger ex_lookup_clash)) 8 d of
              None \<Rightarrow> False | Some b \<Rightarrow> Unmarshal ex_lookup_clash b \<noteq> None)
           \<and> decoded_changes ex_lookup_clash (GetDB (badger ex_lookup_clash)) d 8 \<noteq> None)
        (accumulated ex_lookup_clash (GetDB (badger ex_lookup_clash)) 8
           (LookupDatasetIDs (badger ex_lookup_clash) []))
   \<and> \<not> distinct (map (result_key ex_lookup_clash)
             (remdups (accumulated ex_lookup_clash (GetDB (badger ex_lookup_clash)) 8
                (LookupDatasetIDs (badger ex_lookup_clash) []))))
   \<and> \<not> (\<exists>m. fst (Details ex_lookup_clash ''ex:3'' []) = Inr m
            \<and> m (Sprintf_v 7) = Some (Placeholder ''UNEXPECTED: dataset name not found'')
            \<and> m ''7'' = Some (Entry [123, 1] [[123, 1]]))
   \<and> (case fst (Details ex_lookup_clash ''ex:3'' []) of Inl _ \<Rightarrow> False
       | Inr m \<Rightarrow> m (Sprintf_v 7) = Some (Entry [123, 1] [[123, 1]]))
   \<and> range_permutes ex_lookup_clash_fwd
   \<and> (case fst (Details ex_lookup_clash_fwd ''ex:3'' []) of Inl _ \<Rightarrow> False
       | Inr m \<Rightarrow> m ''7'' = Some (Placeholder ''UNEXPECTED: dataset name not found''))"
proof -
  let ?l = ex_lookup_clash
  let ?db = "GetDB (badger ex_lookup_clash)"
  let ?acc = "accumulated ?l ?db 8 (LookupDatasetIDs (badger ?l) [])"
  have p: "range_permutes ?l" by (simp add: range_permutes_def ex_lookup_clash_def)
  have p': "range_permutes ex_lookup_clash_fwd"
    by (simp add: range_permutes_def ex_lookup_clash_fwd_def)
  have c: "asCURIE ?l ''ex:3'' = Inr ''ex:3''" by code_simp
  have e: "curie_ids ?db ''ex:3'' = Some 8" by code_simp
  have "list_all (\<lambda>it. \<not> isl (key_dataset (fst it))) (locator_entries ?l ?db 8)"
    by code_simp
  then have wf: "wellformed_keys (locator_entries ?l ?db 8)"
    by (simp add: wellformed_keys_iff)
  have d7: "7 \<in> set ?acc" by code_simp
  have un: "LookupDatasetName (badger ?l) 7 = None" by code_simp
  have d5: "5 \<in> set ?acc" by code_simp
  have n5: "LookupDatasetName (badger ?l) 5 = Some ''7''" by code_simp
  have l5: "locator_latest ?l ?db 8 5 = Some [123, 1]" by code_simp
  have u5: "Unmarshal ?l [123, 1] = Some [123, 1]" by code_simp
  have c5: "decoded_changes ?l ?db 5 8 = Some [[123, 1]]" by code_simp
  have dec: "list_all (\<lambda>d. LookupDatasetName (badger ?l) d \<noteq> None \<longrightarrow>
           (case locator_latest ?l ?db 8 d of
              None \<Rightarrow> False | Some b \<Rightarrow> Unmarshal ?l b \<noteq> None)
           \<and> decoded_changes ?l ?db d 8 \<noteq> None) ?acc"
    by code_simp
  have nk: "\<not> distinct (map (result_key ?l) (remdups ?acc))" by code_simp
  have s7: "Sprintf_v 7 = ''7''" by code_simp
  have no: "\<not> (\<exists>m. fst (Details ?l ''ex:3'' []) = Inr m
            \<and> m (Sprintf_v 7) = Some (Placeholder ''UNEXPECTED: dataset name not found'')
            \<and> m ''7'' = Some (Entry [123, 1] [[123, 1]]))"
    by (simp add: s7)
  have r: "case fst (Details ?l ''ex:3'' []) of Inl _ \<Rightarrow> False
       | Inr m \<Rightarrow> m (Sprintf_v 7) = Some (Entry [123, 1] [[123, 1]])"
    by code_simp
  have f: "case fst (Details ex_lookup_clash_fwd ''ex:3'' []) of Inl _ \<Rightarrow> False
       | Inr m \<Rightarrow> m ''7'' = Some (Placeholder ''UNEXPECTED: dataset name not found'')"
    by code_simp
  from p c e wf d7 un d5 n5 l5 u5 c5 dec nk no r p' f show ?thesis by blast
qed

text \<open>
  C7: an identifier that does not compact, or whose curie has no internal id, ends the call
  with that error (\<open>NotFound\<close> for the unassigned curie) before any iterator is opened.
\<close>

theorem unresolved_identifier_aborts:
  "(asCURIE l ident = Inl err \<longrightarrow> Details l ident names = (Inl err, []))
   \<and> (asCURIE l ident = Inr c \<and> curie_ids (GetDB (badger l)) c = None \<longrightarrow>
        Details l ident names = (Inl NotFound, [TxnOpened False, TxnDiscarded]))
   \<and> (asCURIE l ident = Inl err \<or> (asCURIE l ident = Inr c \<and> curie_ids (GetDB (badger l)) c = None) \<longrightarrow>
        \<not> list_ex is_iterator_event (snd (Details l ident names)))"
  by (auto simp: Details_def InternalIDForCURIE_def NewTransaction_def Let_def is_iterator_event_def)

theorem unresolved_identifier_aborts_witness:
  "asCURIE ex_lookup '''' = Inl InvalidIdentifier
   \<and> Details ex_lookup '''' [] = (Inl InvalidIdentifier, [])
   \<and> asCURIE ex_lookup ''ex:none'' = Inr ''ex:none''
   \<and> curie_ids (GetDB (badger ex_lookup)) ''ex:none'' = None
   \<and> Details ex_lookup ''ex:none'' [] = (Inl NotFound, [TxnOpened False, TxnDiscarded])
   \<and> \<not> list_ex is_iterator_event (snd (Details ex_lookup ''ex:none'' []))"
proof -
  have a: "asCURIE ex_lookup '''' = Inl InvalidIdentifier" by code_simp
  have b: "asCURIE ex_lookup ''ex:none'' = Inr ''ex:none''" by code_simp
  have c: "curie_ids (GetDB (badger ex_lookup)) ''ex:none'' = None" by code_simp
  show ?thesis
    using unresolved_identifier_aborts[of ex_lookup "''''" InvalidIdentifier "[]" "''ex:none''"]
      unresolved_identifier_aborts[of ex_lookup "''ex:none''" InvalidIdentifier "[]" "''ex:none''"]
      a b c by (simp add: is_iterator_event_def)
qed

text \<open>
  C8: the call leaves the committed database as it was: it opens one read-only transaction,
  opens and closes iterators, and discards the transaction on every path; it commits
  nothing.
\<close>

theorem Details_frame:
  "store_after (GetDB (badger l)) (snd (Details l ident names)) = GetDB (badger l)
   \<and> (snd (Details l ident names) = []
      \<or> (\<exists>evs. snd (Details l ident names) = TxnOpened False # evs @ [TxnDiscarded]
               \<and> list_all is_iterator_event evs))"
proof (cases "asCURIE l ident")
  case (Inl err)
  then show ?thesis by (simp add: Details_def store_after_def)
next
  case (Inr c)
  let ?rtxn = "NewTransaction (GetDB (badger l)) False"
  show ?thesis
  proof (cases "InternalIDForCURIE ?rtxn c")
    case (Inl err)
    then have "snd (Details l ident names) = TxnOpened False # [] @ [TxnDiscarded]"
      using Inr by (simp add: Details_def)
    then show ?thesis by (simp add: store_after_def)
  next
    case (Inr e)
    obtain evs where evs: "snd (loadDetails l ?rtxn e (LookupDatasetIDs (badger l) names)) = evs"
      and it: "list_all is_iterator_event evs"
      using loadDetails_events by blast
    have tr: "snd (Details l ident names) = TxnOpened False # evs @ [TxnDiscarded]"
      using \<open>asCURIE l ident = Inr c\<close> Inr evs by (auto simp: Details_def Let_def split: prod.splits)
    have "store_after (GetDB (badger l)) (TxnOpened False # evs @ [TxnDiscarded]) = GetDB (badger l)"
      by (simp add: store_after_def fold_apply_iterator_events[OF it])
    then show ?thesis using tr it by simp
  qed
qed

text \<open>
  C9: the scan takes the dataset id \<open>0\<close> for "no previous dataset", so \<open>0\<close> is never a key of
  \<open>partials\<close>, and every key of a result is the key of a dataset other than \<open>0\<close>: the
  dataset \<open>0\<close> is absent also when it is not deleted and in scope.
\<close>

theorem dataset_zero_never_committed:
  "(scan_partials l rtxn e scope = Inr ps \<longrightarrow> 0 \<notin> fst ` set ps)
   \<and> (range_permutes l \<and> asCURIE l ident = Inr c \<and> curie_ids (GetDB (badger l)) c = Some i
        \<and> fst (Details l ident names) = Inr m \<longrightarrow>
        dom m \<subseteq> result_key l ` {d \<in> set (locator_datasets l (GetDB (badger l)) i). d \<noteq> 0})"
proof (intro conjI impI)
  assume a: "scan_partials l rtxn e scope = Inr ps"
  then have "map_of ps 0 = None"
    using scan_partials_keys(2)[of l rtxn e scope ps] by simp
  then show "0 \<notin> fst ` set ps"
    by (simp add: map_of_eq_None_iff)
next
  assume a: "range_permutes l \<and> asCURIE l ident = Inr c
     \<and> curie_ids (GetDB (badger l)) c = Some i \<and> fst (Details l ident names) = Inr m"
  then have "dom m = result_key l `
       set (accumulated l (GetDB (badger l)) i (LookupDatasetIDs (badger l) names))"
    using Details_keys[of l ident names m c i] by blast
  then show "dom m \<subseteq> result_key l ` {d \<in> set (locator_datasets l (GetDB (badger l)) i). d \<noteq> 0}"
    by (auto simp: accumulated_iff)
qed

theorem dataset_zero_never_committed_witness:
  "\<not> IsDatasetDeleted (badger ex_lookup) 0
   \<and> LookupDatasetName (badger ex_lookup) 0 = Some ''zero''
   \<and> LookupDatasetIDs (badger ex_lookup) [''zero''] = [0]
   \<and> 0 \<in> set (locator_datasets ex_lookup (GetDB (badger ex_lookup)) 8)
   \<and> range_permutes ex_lookup
   \<and> (\<exists>ps. scan_partials ex_lookup (NewTransaction (GetDB (badger ex_lookup)) False) 8 [0] = Inr ps
          \<and> 0 \<notin> fst ` set ps)
   \<and> (\<exists>m. fst (Details ex_lookup ''ex:3'' [''zero'']) = Inr m
          \<and> dom m \<subseteq> result_key ex_lookup `
                {d \<in> set (locator_datasets ex_lookup (GetDB (badger ex_lookup)) 8). d \<noteq> 0}
          \<and> m ''zero'' = None)"
proof -
  have nd: "\<not> IsDatasetDeleted (badger ex_lookup) 0" by code_simp
  have nm: "LookupDatasetName (badger ex_lookup) 0 = Some ''zero''" by code_simp
  have sc: "LookupDatasetIDs (badger ex_lookup) [''zero''] = [0]" by code_simp
  have app: "0 \<in> set (locator_datasets ex_lookup (GetDB (badger ex_lookup)) 8)" by code_simp
  have p: "range_permutes ex_lookup" by (simp add: range_permutes_def ex_lookup_def)
  have c: "asCURIE ex_lookup ''ex:3'' = Inr ''ex:3''" by code_simp
  have e: "curie_ids (GetDB (badger ex_lookup)) ''ex:3'' = Some 8" by code_simp
  have "\<not> isl (scan_partials ex_lookup (NewTransaction (GetDB (badger ex_lookup)) False) 8 [0])"
    by code_simp
  then obtain ps where
    ps: "scan_partials ex_lookup (NewTransaction (GetDB (badger ex_lookup)) False) 8 [0] = Inr ps"
    by (cases "scan_partials ex_lookup (NewTransaction (GetDB (badger ex_lookup)) False) 8 [0]") auto
  have ev: "case fst (Details ex_lookup ''ex:3'' [''zero'']) of Inl _ \<Rightarrow> False
            | Inr m \<Rightarrow> m ''zero'' = None"
    by code_simp
  then obtain m where m: "fst (Details ex_lookup ''ex:3'' [''zero'']) = Inr m"
    by (cases "fst (Details ex_lookup ''ex:3'' [''zero''])") auto
  from ev m have vals: "m ''zero'' = None" by simp
  from dataset_zero_never_committed[of ex_lookup "NewTransaction (GetDB (badger ex_lookup)) False"
      8 "[0]" ps "''ex:3''" "''ex:3''" 8 "[''zero'']" m] ps p m c e
  have "0 \<notin> fst ` set ps"
    and "dom m \<subseteq> result_key ex_lookup `
                {d \<in> set (locator_datasets ex_lookup (GetDB (badger ex_lookup)) 8). d \<noteq> 0}"
    by blast+
  with nd nm sc app p ps m vals show ?thesis by blast
qed

text \<open>
  C10: when the identifier resolves and every locator entry of the entity is skipped by the
  filter (also when there is none), the call returns the empty map and no error.
\<close>

theorem no_surviving_entry_gives_empty_map:
  assumes perm: "range_permutes l"
    and c: "asCURIE l ident = Inr c" and e: "curie_ids (GetDB (badger l)) c = Some e"
    and skip: "\<forall>it\<in>set (locator_entries l (GetDB (badger l)) e).
                 skipped (badger l) (LookupDatasetIDs (badger l) names) it"
  shows "fst (Details l ident names) = Inr Map.empty"
proof -
  let ?db = "GetDB (badger l)"
  let ?rtxn = "NewTransaction ?db False"
  let ?scope = "LookupDatasetIDs (badger l) names"
  have v: "view ?rtxn = ?db" by (simp add: NewTransaction_def)
  have wf: "wellformed_keys (locator_entries l (view ?rtxn) e)"
    using skip by (auto simp: v wellformed_keys_def dest: skipped_wellformed)
  from scan_partials_ok[OF wf, of ?scope] obtain ps where
    ps: "scan_partials l ?rtxn e ?scope = Inr ps" and
    m: "map_of ps = (\<lambda>d. if retained (badger l) ?scope d \<and> d \<noteq> 0
                          then locator_latest l (view ?rtxn) e d else None)"
    by blast
  have "locator_latest l ?db e d = None" if "retained (badger l) ?scope d" for d
  proof -
    have "d \<notin> set (locator_datasets l ?db e)"
      using skip that by (auto simp: set_locator_datasets skipped_def)
    then show ?thesis using locator_latest_datasets[of l ?db e d] by simp
  qed
  then have "map_of ps = Map.empty" by (auto simp: m v)
  then have "ps = []" by (simp add: map_of_eq_empty_iff)
  moreover have "range_order l [] = []"
    using perm by (metis range_permutes_def mset_zero_iff)
  ultimately show ?thesis
    by (simp add: Details_resolved[OF c e] ps)
qed

theorem no_surviving_entry_gives_empty_map_witness:
  "range_permutes ex_lookup \<and> asCURIE ex_lookup ''ex:4'' = Inr ''ex:4''
   \<and> curie_ids (GetDB (badger ex_lookup)) ''ex:4'' = Some 9
   \<and> locator_entries ex_lookup (GetDB (badger ex_lookup)) 9 \<noteq> []
   \<and> list_all (skipped (badger ex_lookup) (LookupDatasetIDs (badger ex_lookup) []))
        (locator_entries ex_lookup (GetDB (badger ex_lookup)) 9)
   \<and> fst (Details ex_lookup ''ex:4'' []) = Inr Map.empty"
proof -
  have p: "range_permutes ex_lookup" by (simp add: range_permutes_def ex_lookup_def)
  have c: "asCURIE ex_lookup ''ex:4'' = Inr ''ex:4''" by code_simp
  have e: "curie_ids (GetDB (badger ex_lookup)) ''ex:4'' = Some 9" by code_simp
  have n: "locator_entries ex_lookup (GetDB (badger ex_lookup)) 9 \<noteq> []" by code_simp
  have s: "list_all (skipped (badger ex_lookup) (LookupDatasetIDs (badger ex_lookup) []))
        (locator_entries ex_lookup (GetDB (badger ex_lookup)) 9)" by code_simp
  then have s': "\<forall>it\<in>set (locator_entries ex_lookup (GetDB (badger ex_lookup)) 9).
                 skipped (badger ex_lookup) (LookupDatasetIDs (badger ex_lookup) []) it"
    by (simp add: list_all_iff)
  from no_surviving_entry_gives_empty_map[OF p c e s'] p c e n s show ?thesis by simp
qed

end
